theory Spec2Isabelle
  imports Main "HOL-Library.Word" "HOL-Library.Char_ord" "HOL-Library.List_Lexorder"
    "HOL-Library.AList"
begin

unbundle bit_operations_syntax

section \<open>Bytes and errors\<close>

text \<open>
  A Go \<open>string\<close> and a \<open>[]byte\<close> are sequences of bytes; both are modelled as
  \<^typ>\<open>string\<close>, a list of 8-bit characters. \<open>byte\<close> reads a character as its
  numeric value, so that the source's comparisons (\<open>c <= 0x1F\<close>) read as written.
\<close>

definition byte :: "char \<Rightarrow> nat" where
  "byte c = of_char c"

definition is_digit :: "char \<Rightarrow> bool" where
  "is_digit c = (byte CHR ''0'' \<le> byte c \<and> byte c \<le> byte CHR ''9'')"

definition dquote :: char where
  "dquote = CHR 0x22"

definition bslash :: char where
  "bslash = CHR 0x5C"

text \<open>
  The error values of \<open>scanner.go\<close>, followed by the errors the encoder creates
  (\<open>fmt.Errorf\<close> in \<open>marshalFloat64\<close> and \<open>parseMarshalOptions\<close>,
  \<open>UnsupportedTypeError\<close>) and the errors that come from outside the package
  (a failing sink, a failing user callback or capability). \<open>Panic\<close> is not an error
  value of Go: it stands for a run-time panic raised by the Go library under the encoder,
  with the name of the library function that raises it. The encoder does not recover from
  it, so the call in which it happens does not return.
\<close>

type_synonym float64 = "64 word"

datatype error =
    ErrUnexpectedToken
  | ErrUnexpectedEOF
  | ErrInvalidNumber
  | ErrInvalidString
  | ErrInvalidUnicodeEscape
  | ErrNumericValueOutOfRange
  | UnsupportedFloatValue float64
  | InvalidFloatPrecision int
  | UnsupportedTypeError string
  | ExternalError string
  | Panic string

section \<open>Scanner (scanner.go)\<close>

record scanner =
  data :: string
  cur :: nat
  flags :: int

definition ScannerFlagDoNotSkipBOM :: int where
  "ScannerFlagDoNotSkipBOM = 1"

definition ScannerFlagDoNotSkipInitialWhitespace :: int where
  "ScannerFlagDoNotSkipInitialWhitespace = 2"

definition IsEOF :: "scanner \<Rightarrow> bool" where
  "IsEOF s = (cur s \<ge> length (data s))"

definition SkipBOM :: "scanner \<Rightarrow> bool \<times> scanner" where
  "SkipBOM s =
     (if length (data s) \<ge> 3 \<and> data s ! 0 = CHR 0xEF \<and> data s ! 1 = CHR 0xBB
         \<and> data s ! 2 = CHR 0xBF
      then (True, s\<lparr>cur := cur s + 3\<rparr>)
      else (False, s))"

definition "next" :: "scanner \<Rightarrow> char \<times> scanner" where
  "next s =
     (if cur s \<ge> length (data s) then (CHR 0x00, s)
      else (data s ! cur s, s\<lparr>cur := cur s + 1\<rparr>))"

definition peek :: "scanner \<Rightarrow> char" where
  "peek s = (if cur s \<ge> length (data s) then CHR 0x00 else data s ! cur s)"

definition skipByte :: "scanner \<Rightarrow> char \<Rightarrow> bool \<times> scanner" where
  "skipByte s b =
     (if cur s \<ge> length (data s) then (False, s)
      else if data s ! cur s = b then (True, s\<lparr>cur := cur s + 1\<rparr>)
      else (False, s))"

definition is_ws :: "char \<Rightarrow> bool" where
  "is_ws c = (c = CHR '' '' \<or> c = CHR 0x09 \<or> c = CHR 0x0A \<or> c = CHR 0x0D)"

function skipWhitespace :: "scanner \<Rightarrow> scanner" where
  "skipWhitespace s =
     (if cur s < length (data s) then
        (let c = data s ! cur s in
         if c = CHR '' '' \<or> c = CHR 0x09 \<or> c = CHR 0x0A \<or> c = CHR 0x0D
         then skipWhitespace (s\<lparr>cur := cur s + 1\<rparr>)
         else s)
      else s)"
  by pat_completeness auto
termination
  by (relation "measure (\<lambda>s. length (data s) - cur s)") auto

declare skipWhitespace.simps [simp del]

text \<open>
  \<open>Finalize\<close> returns a Go \<open>error\<close>: \<open>None\<close> is \<open>nil\<close>. The scanner it leaves
  behind is returned with it.
\<close>

definition Finalize :: "scanner \<Rightarrow> error option \<times> scanner" where
  "Finalize s =
     (let s1 = skipWhitespace s in
      if \<not> IsEOF s1 then (Some ErrUnexpectedToken, s1) else (None, s1))"

definition isDecimalDigit :: "scanner \<Rightarrow> bool" where
  "isDecimalDigit s =
     (cur s < length (data s) \<and> byte (data s ! cur s) \<ge> byte CHR ''0''
      \<and> byte (data s ! cur s) \<le> byte CHR ''9'')"

function skipDigitsLoop :: "scanner \<Rightarrow> scanner" where
  "skipDigitsLoop s =
     (if isDecimalDigit s then skipDigitsLoop (s\<lparr>cur := cur s + 1\<rparr>) else s)"
  by pat_completeness auto
termination
  by (relation "measure (\<lambda>s. length (data s) - cur s)") (auto simp: isDecimalDigit_def)

declare skipDigitsLoop.simps [simp del]

definition skipDecimalDigits :: "scanner \<Rightarrow> bool \<times> scanner" where
  "skipDecimalDigits s =
     (let startPos = cur s; s1 = skipDigitsLoop s in (cur s1 > startPos, s1))"

text \<open>The \<open>for i, b := range seq\<close> loop of \<open>skipSequence\<close>, from index \<open>i\<close> on.\<close>

fun seqMatches :: "string \<Rightarrow> nat \<Rightarrow> string \<Rightarrow> bool" where
  "seqMatches d i [] = True"
| "seqMatches d i (b # bs) = (if d ! i \<noteq> b then False else seqMatches d (i + 1) bs)"

definition skipSequence :: "scanner \<Rightarrow> string \<Rightarrow> bool \<times> scanner" where
  "skipSequence s seq =
     (if cur s + length seq > length (data s) then (False, s)
      else if \<not> seqMatches (data s) (cur s) seq then (False, s)
      else (True, s\<lparr>cur := cur s + length seq\<rparr>))"

subsection \<open>Unicode escapes\<close>

text \<open>
  \<open>strconv.ParseUint(hex, 16, 16)\<close> of the Go standard library, on the four bytes
  \<open>parseUnicode\<close> passes: every byte must be a hexadecimal digit (no sign, no prefix, no
  underscore is accepted for an explicit base), and four digits always fit 16 bits.
  The result is \<open>None\<close> where Go returns an error.
\<close>

definition hexDigit :: "char \<Rightarrow> nat option" where
  "hexDigit c =
     (if byte CHR ''0'' \<le> byte c \<and> byte c \<le> byte CHR ''9'' then Some (byte c - byte CHR ''0'')
      else if byte CHR ''a'' \<le> byte c \<and> byte c \<le> byte CHR ''f'' then Some (byte c - byte CHR ''a'' + 10)
      else if byte CHR ''A'' \<le> byte c \<and> byte c \<le> byte CHR ''F'' then Some (byte c - byte CHR ''A'' + 10)
      else None)"

fun ParseUint_loop :: "nat \<Rightarrow> string \<Rightarrow> nat option" where
  "ParseUint_loop n [] = Some n"
| "ParseUint_loop n (c # cs) =
     (case hexDigit c of None \<Rightarrow> None | Some d \<Rightarrow> ParseUint_loop (n * 16 + d) cs)"

definition ParseUint_16_16 :: "string \<Rightarrow> nat option" where
  "ParseUint_16_16 hex =
     (if hex = [] then None
      else case ParseUint_loop 0 hex of
             None \<Rightarrow> None
           | Some v \<Rightarrow> if v < 2 ^ 16 then Some v else None)"

text \<open>
  The Go conversion \<open>string(r)\<close> of a rune: the UTF-8 encoding of the code point, and
  the encoding of U+FFFD (\<open>EF BF BD\<close>) for a value that is not a valid code point, which
  includes the surrogate range \<open>D800\<close>..\<open>DFFF\<close>.
\<close>

definition string_of_rune :: "nat \<Rightarrow> string" where
  "string_of_rune r =
     (if r < 0x80 then [char_of r]
      else if r < 0x800 then [char_of (0xC0 + r div 0x40), char_of (0x80 + r mod 0x40)]
      else if 0xD800 \<le> r \<and> r \<le> 0xDFFF then [CHR 0xEF, CHR 0xBF, CHR 0xBD]
      else if r < 0x10000 then
        [char_of (0xE0 + r div 0x1000), char_of (0x80 + (r div 0x40) mod 0x40),
         char_of (0x80 + r mod 0x40)]
      else if r \<le> 0x10FFFF then
        [char_of (0xF0 + r div 0x40000), char_of (0x80 + (r div 0x1000) mod 0x40),
         char_of (0x80 + (r div 0x40) mod 0x40), char_of (0x80 + r mod 0x40)]
      else [CHR 0xEF, CHR 0xBF, CHR 0xBD])"

definition parseUnicode :: "scanner \<Rightarrow> error + (nat \<times> scanner)" where
  "parseUnicode s =
     (if length (data s) < cur s + 4 then Inl ErrInvalidUnicodeEscape
      else
        (let hex = take 4 (drop (cur s) (data s));
             s1 = s\<lparr>cur := cur s + 4\<rparr>
         in case ParseUint_16_16 hex of
              None \<Rightarrow> Inl ErrInvalidUnicodeEscape
            | Some v \<Rightarrow> Inr (v, s1)))"

subsection \<open>Strings\<close>

text \<open>
  The fast path of \<open>parseString\<close>: the loop either returns from the function (an error
  or the string between the quotes) or breaks with \<open>escaped = true\<close>. Falling out of the
  loop at the end of the input leaves \<open>escaped\<close> false, and the function returns the
  invalid-string error.
\<close>

datatype fast_result = Return "error + (string \<times> scanner)" | Escaped

function parseString_fast :: "nat \<Rightarrow> scanner \<Rightarrow> fast_result" where
  "parseString_fast start s =
     (if cur s < length (data s) then
        (let c = data s ! cur s in
         if byte c \<le> 0x1F then Return (Inl ErrInvalidString)
         else if c = bslash then Escaped
         else if c = dquote then
           Return (Inr (take (cur s - start) (drop start (data s)), s\<lparr>cur := cur s + 1\<rparr>))
         else parseString_fast start (s\<lparr>cur := cur s + 1\<rparr>))
      else Return (Inl ErrInvalidString))"
  by pat_completeness auto
termination
  by (relation "measure (\<lambda>(start, s). length (data s) - cur s)") auto

declare parseString_fast.simps [simp del]

text \<open>The slow path: the \<open>for\<close> loop that decodes byte by byte into \<open>buf\<close>.\<close>

function parseString_slow :: "string \<Rightarrow> scanner \<Rightarrow> error + (string \<times> scanner)" where
  "parseString_slow buf s =
     (let (c, s1) = next s in
      if c = CHR 0x00 then Inl ErrInvalidString
      else if byte c \<le> 0x1F then Inl ErrInvalidString
      else if c = dquote then Inr (buf, s1)
      else if c = bslash then
        (if cur s1 \<ge> length (data s1) then Inl ErrInvalidString
         else
           (let c2 = peek s1 in
            if c2 = dquote \<or> c2 = bslash \<or> c2 = CHR ''/'' \<or> c2 = CHR ''b'' \<or> c2 = CHR ''f''
               \<or> c2 = CHR ''n'' \<or> c2 = CHR ''r'' \<or> c2 = CHR ''t'' \<or> c2 = CHR ''u''
            then
              (let s2 = s1\<lparr>cur := cur s1 + 1\<rparr> in
               if c2 = dquote \<or> c2 = bslash \<or> c2 = CHR ''/'' then parseString_slow (buf @ [c2]) s2
               else if c2 = CHR ''b'' then parseString_slow (buf @ [CHR 0x08]) s2
               else if c2 = CHR ''f'' then parseString_slow (buf @ [CHR 0x0C]) s2
               else if c2 = CHR ''n'' then parseString_slow (buf @ [CHR 0x0A]) s2
               else if c2 = CHR ''r'' then parseString_slow (buf @ [CHR 0x0D]) s2
               else if c2 = CHR ''t'' then parseString_slow (buf @ [CHR 0x09]) s2
               else
                 (case parseUnicode s2 of
                    Inl e \<Rightarrow> Inl e
                  | Inr (r, s3) \<Rightarrow> parseString_slow (buf @ string_of_rune r) s3))
            else Inl ErrInvalidString))
      else parseString_slow (buf @ [c]) s1)"
  by pat_completeness auto
termination
  by (relation "measure (\<lambda>(buf, s). length (data s) - cur s)")
     (auto simp: next_def parseUnicode_def Let_def split: if_splits option.splits)

declare parseString_slow.simps [simp del]

definition parseString :: "scanner \<Rightarrow> error + (string \<times> scanner)" where
  "parseString s =
     (if peek s \<noteq> dquote then Inl ErrUnexpectedToken
      else
        (let s1 = s\<lparr>cur := cur s + 1\<rparr>; start = cur s1 in
         case parseString_fast start s1 of
           Return r \<Rightarrow> r
         | Escaped \<Rightarrow> parseString_slow [] (s1\<lparr>cur := start\<rparr>)))"

subsection \<open>Numbers\<close>

text \<open>
  \<open>strconv.ParseFloat(num, 64)\<close> belongs to the Go standard library, not to this
  package. \<open>parseNumber\<close> takes it as the parameter \<open>ParseFloat\<close>: a function from the
  literal to the value and the \<open>Err\<close> field of the \<open>*strconv.NumError\<close> it returns
  (\<open>None\<close> for a nil error).
\<close>

datatype strconv_err = ErrSyntax | ErrRange

type_synonym parse_float = "string \<Rightarrow> float64 \<times> strconv_err option"

text \<open>The condition \<open>s.skipByte('e') || s.skipByte('E')\<close>, evaluated left to right.\<close>

definition skipExpMarker :: "scanner \<Rightarrow> bool \<times> scanner" where
  "skipExpMarker s =
     (if fst (skipByte s CHR ''e'') then skipByte s CHR ''e'' else skipByte s CHR ''E'')"

text \<open>The sections of \<open>parseNumber\<close>, as its comments name them.\<close>

definition parseNumber_integer :: "scanner \<Rightarrow> error + scanner" where
  "parseNumber_integer s =
     (let s1 = snd (skipByte s CHR ''-'') in
      if fst (skipByte s1 CHR ''0'') then
        (let s2 = snd (skipByte s1 CHR ''0'') in
         if isDecimalDigit s2 then Inl ErrInvalidNumber else Inr s2)
      else if cur s1 \<ge> length (data s1) \<or> byte (data s1 ! cur s1) < byte CHR ''1''
              \<or> byte (data s1 ! cur s1) > byte CHR ''9''
      then Inl ErrInvalidNumber
      else Inr (snd (skipDecimalDigits (s1\<lparr>cur := cur s1 + 1\<rparr>))))"

definition parseNumber_fraction :: "scanner \<Rightarrow> error + scanner" where
  "parseNumber_fraction s =
     (if fst (skipByte s CHR ''.'') then
        (let s1 = snd (skipByte s CHR ''.'') in
         if \<not> fst (skipDecimalDigits s1) then Inl ErrInvalidNumber
         else
           (let s2 = snd (skipDecimalDigits s1) in
            if fst (skipByte s2 CHR ''.'') then Inl ErrInvalidNumber
            else Inr (snd (skipByte s2 CHR ''.''))))
      else Inr (snd (skipByte s CHR ''.'')))"

definition parseNumber_exponent :: "scanner \<Rightarrow> error + scanner" where
  "parseNumber_exponent s =
     (if fst (skipExpMarker s) then
        (let s1 = snd (skipExpMarker s);
             s2 = (if \<not> fst (skipByte s1 CHR ''+'')
                   then snd (skipByte (snd (skipByte s1 CHR ''+'')) CHR ''-'')
                   else snd (skipByte s1 CHR ''+''))
         in if \<not> fst (skipDecimalDigits s2) then Inl ErrInvalidNumber
            else
              (let s3 = snd (skipDecimalDigits s2) in
               if fst (skipExpMarker s3) then Inl ErrInvalidNumber
               else Inr (snd (skipExpMarker s3))))
      else Inr (snd (skipExpMarker s)))"

definition parseNumber :: "parse_float \<Rightarrow> scanner \<Rightarrow> error + (float64 \<times> scanner)" where
  "parseNumber ParseFloat s =
     (let start = cur s in
      case parseNumber_integer s of
        Inl e \<Rightarrow> Inl e
      | Inr s1 \<Rightarrow>
          (case parseNumber_fraction s1 of
             Inl e \<Rightarrow> Inl e
           | Inr s2 \<Rightarrow>
               (case parseNumber_exponent s2 of
                  Inl e \<Rightarrow> Inl e
                | Inr s3 \<Rightarrow>
                    (let num = take (cur s3 - start) (drop start (data s3)) in
                     case ParseFloat num of
                       (val, None) \<Rightarrow> Inr (val, s3)
                     | (val, Some err) \<Rightarrow>
                         if err = ErrRange then Inl ErrNumericValueOutOfRange
                         else Inl ErrInvalidNumber))))"

subsection \<open>The JSON number grammar\<close>

text \<open>
  The grammar in the words of the specification: an optional leading \<open>-\<close>; an integer
  part that is a single \<open>0\<close> or a nonzero digit followed by digits; an optional
  fractional part with at least one digit after the \<open>.\<close>; an optional exponent
  (\<open>e\<close> or \<open>E\<close>, an optional sign) with at least one digit.
\<close>

definition sign_part :: "string \<Rightarrow> bool" where
  "sign_part sg = (sg = [] \<or> sg = ''-'')"

definition int_part :: "string \<Rightarrow> bool" where
  "int_part ip = (ip = ''0'' \<or> (ip \<noteq> [] \<and> hd ip \<noteq> CHR ''0'' \<and> list_all is_digit ip))"

definition frac_part :: "string \<Rightarrow> bool" where
  "frac_part fp =
     (fp = [] \<or> (hd fp = CHR ''.'' \<and> tl fp \<noteq> [] \<and> list_all is_digit (tl fp)))"

definition exp_digits :: "string \<Rightarrow> string" where
  "exp_digits r = (if r \<noteq> [] \<and> (hd r = CHR ''+'' \<or> hd r = CHR ''-'') then tl r else r)"

definition exp_part :: "string \<Rightarrow> bool" where
  "exp_part ep =
     (ep = [] \<or> ((hd ep = CHR ''e'' \<or> hd ep = CHR ''E'')
        \<and> exp_digits (tl ep) \<noteq> [] \<and> list_all is_digit (exp_digits (tl ep))))"

definition json_number :: "string \<Rightarrow> bool" where
  "json_number lit =
     (\<exists>sg ip fp ep. lit = sg @ ip @ fp @ ep \<and> sign_part sg \<and> int_part ip \<and> frac_part fp
        \<and> exp_part ep)"

text \<open>
  What may follow a literal in the input without being read as part of it: the end of
  the input, or a byte that is neither a digit nor \<open>.\<close>, \<open>e\<close>, \<open>E\<close>.
\<close>

definition number_end :: "string \<Rightarrow> bool" where
  "number_end rest =
     (rest = [] \<or> (\<not> is_digit (hd rest) \<and> hd rest \<noteq> CHR ''.'' \<and> hd rest \<noteq> CHR ''e''
        \<and> hd rest \<noteq> CHR ''E''))"

section \<open>The Go library on 64-bit floats\<close>

text \<open>
  A \<open>float64\<close> is its IEEE 754 binary64 bit pattern: sign bit, 11 exponent bits, 52
  fraction bits. \<open>math.IsNaN\<close> and \<open>math.IsInf(v, 0)\<close> are read off the pattern.
\<close>

definition exp_field :: "float64 \<Rightarrow> nat" where
  "exp_field v = (unat v div 2 ^ 52) mod 2 ^ 11"

definition frac_field :: "float64 \<Rightarrow> nat" where
  "frac_field v = unat v mod 2 ^ 52"

definition sign_bit :: "float64 \<Rightarrow> bool" where
  "sign_bit v = (unat v \<ge> 2 ^ 63)"

definition IsNaN :: "float64 \<Rightarrow> bool" where
  "IsNaN v = (exp_field v = 2047 \<and> frac_field v \<noteq> 0)"

definition IsInf :: "float64 \<Rightarrow> bool" where
  "IsInf v = (exp_field v = 2047 \<and> frac_field v = 0)"

text \<open>
  \<open>strconv.ParseFloat(s, 64)\<close>, modelled from the documentation and the source
  (\<open>atof.go\<close>) of the Go standard library for the decimal forms: the nearest
  \<open>float64\<close> under IEEE 754 round-half-even; \<open>ErrRange\<close> with an infinity when the
  rounded magnitude is beyond the largest finite value; a magnitude too small for the
  format rounds to a subnormal or to zero with no error; \<open>ErrSyntax\<close> for an ill-formed
  text. As in Go, a decimal point position above 310 is an overflow and one below -330 is
  zero without any rounding. The other forms Go accepts (hexadecimal literals, infinities
  and NaN by name) get \<open>ErrSyntax\<close> here; they cannot reach \<open>ParseFloat\<close> from
  \<open>parseNumber\<close>. The theorems below hold for every \<open>ParseFloat\<close>; this model
  instantiates them at concrete literals.
\<close>

definition round_half_even :: "nat \<Rightarrow> nat \<Rightarrow> nat" where
  "round_half_even n d =
     (let q = n div d; r = n mod d in
      if 2 * r < d then q else if 2 * r > d then q + 1 else if even q then q else q + 1)"

fun bitlen :: "nat \<Rightarrow> nat" where
  "bitlen n = (if n = 0 then 0 else Suc (bitlen (n div 2)))"

declare bitlen.simps [simp del]

text \<open>
  The binary64 pattern (without the sign) nearest to \<open>n / d\<close>. With \<open>e\<close> the binary
  exponent, not below that of the subnormals, and \<open>m\<close> the rounded 53-bit significand,
  the pattern is \<open>(e + 1022) * 2^52 + m\<close>: a carry out of the significand moves into
  the exponent field, and a result at or above \<open>0x7FF0000000000000\<close> is an overflow.
\<close>

definition nearest_float64 :: "nat \<Rightarrow> nat \<Rightarrow> nat" where
  "nearest_float64 n d =
     (if n = 0 then 0
      else
        (let k = int (bitlen n) - int (bitlen d);
             e = (if (if k \<ge> 0 then n \<ge> d * 2 ^ nat k else n * 2 ^ nat (- k) \<ge> d)
                  then k else k - 1);
             e' = max e (- 1022);
             sh = 52 - e';
             m = (if sh \<ge> 0 then round_half_even (n * 2 ^ nat sh) d
                  else round_half_even n (d * 2 ^ nat (- sh)))
         in nat (e' + 1022) * 2 ^ 52 + m))"

definition digits_value :: "string \<Rightarrow> nat" where
  "digits_value ds = foldl (\<lambda>n c. n * 10 + (byte c - byte CHR ''0'')) 0 ds"

definition strconv_ParseFloat :: "string \<Rightarrow> float64 \<times> strconv_err option" where
  "strconv_ParseFloat s =
     (let neg = (s \<noteq> [] \<and> hd s = CHR ''-'');
          s1 = (if s \<noteq> [] \<and> (hd s = CHR ''-'' \<or> hd s = CHR ''+'') then tl s else s);
          ip = takeWhile is_digit s1;
          s2 = dropWhile is_digit s1;
          hasdot = (s2 \<noteq> [] \<and> hd s2 = CHR ''.'');
          s3 = (if hasdot then tl s2 else s2);
          fp = (if hasdot then takeWhile is_digit s3 else []);
          s4 = (if hasdot then dropWhile is_digit s3 else s3);
          hasexp = (s4 \<noteq> [] \<and> (hd s4 = CHR ''e'' \<or> hd s4 = CHR ''E''));
          s5 = (if hasexp then tl s4 else s4);
          eneg = (hasexp \<and> s5 \<noteq> [] \<and> hd s5 = CHR ''-'');
          s6 = (if hasexp \<and> s5 \<noteq> [] \<and> (hd s5 = CHR ''-'' \<or> hd s5 = CHR ''+'') then tl s5 else s5);
          ed = (if hasexp then takeWhile is_digit s6 else []);
          s7 = (if hasexp then dropWhile is_digit s6 else s6)
      in if ip @ fp = [] \<or> (hasexp \<and> ed = []) \<or> s7 \<noteq> [] then (0, Some ErrSyntax)
         else
           (let md = dropWhile (\<lambda>c. c = CHR ''0'') (ip @ fp);
                mant = digits_value md;
                ex = (if eneg then - int (digits_value ed) else int (digits_value ed))
                       - int (length fp);
                dp = int (length md) + ex;
                sgn = (if neg then 2 ^ 63 else 0);
                bits = (if md = [] \<or> dp < - 330 then 0
                        else if dp > 310 then 0x7FF0000000000000
                        else if ex \<ge> 0 then nearest_float64 (mant * 10 ^ nat ex) 1
                        else nearest_float64 mant (10 ^ nat (- ex)))
            in if bits \<ge> 0x7FF0000000000000 then (of_nat (0x7FF0000000000000 + sgn), Some ErrRange)
               else (of_nat (bits + sgn), None)))"

text \<open>\<open>strconv.FormatUint(n, 10)\<close> and \<open>strconv.FormatInt(i, 10)\<close>: decimal digits.\<close>

function digits10 :: "nat \<Rightarrow> string" where
  "digits10 n = (if n < 10 then [char_of (byte CHR ''0'' + n)]
                 else digits10 (n div 10) @ [char_of (byte CHR ''0'' + n mod 10)])"
  by pat_completeness auto
termination
  by (relation "measure id") auto

declare digits10.simps [simp del]

definition FormatUint :: "nat \<Rightarrow> string" where
  "FormatUint n = digits10 n"

definition FormatInt :: "int \<Rightarrow> string" where
  "FormatInt i = (if i < 0 then ''-'' @ digits10 (nat (- i)) else digits10 (nat i))"

text \<open>
  \<open>strconv.FormatFloat(v, 'g', prec, 64)\<close> for \<open>prec \<ge> 0\<close>, modelled from the
  documentation and the source (\<open>ftoa.go\<close>) of the Go standard library: the value is
  rounded, half to even, to \<open>prec\<close> significant decimal digits (one digit for
  \<open>prec = 0\<close>), trailing zeros are dropped, and the digits are laid out in the
  \<open>%e\<close> form when the decimal exponent is below -4 or not below the precision, in the
  \<open>%f\<close> form otherwise. The theorems below hold for every \<open>FormatFloat\<close>; this
  model instantiates them at concrete values.
\<close>

definition float_value :: "float64 \<Rightarrow> nat \<times> nat" where
  "float_value v =
     (let e = exp_field v; m = frac_field v in
      if e = 0 then (m, 2 ^ 1074)
      else if e \<ge> 1075 then ((2 ^ 52 + m) * 2 ^ (e - 1075), 1)
      else (2 ^ 52 + m, 2 ^ (1075 - e)))"

function lead_zeros :: "nat \<Rightarrow> nat \<Rightarrow> nat" where
  "lead_zeros n d = (if n = 0 \<or> n * 10 \<ge> d then 1 else 1 + lead_zeros (n * 10) d)"
  by pat_completeness auto
termination
  by (relation "measure (\<lambda>(n, d). d - n)") auto

declare lead_zeros.simps [simp del]

definition decimal_point :: "nat \<Rightarrow> nat \<Rightarrow> int" where
  "decimal_point n d =
     (if n \<ge> d then int (length (digits10 (n div d))) else 1 - int (lead_zeros n d))"

definition trim_zeros :: "string \<Rightarrow> string" where
  "trim_zeros ds = rev (dropWhile (\<lambda>c. c = CHR ''0'') (rev ds))"

text \<open>The decimal digits (without trailing zeros) and the decimal point position.\<close>

definition round_decimal :: "nat \<Rightarrow> nat \<Rightarrow> nat \<Rightarrow> string \<times> int" where
  "round_decimal n d digits =
     (if n = 0 then ([], 0)
      else
        (let dp = decimal_point n d;
             sh = int digits - dp;
             N = (if sh \<ge> 0 then round_half_even (n * 10 ^ nat sh) d
                  else round_half_even n (d * 10 ^ nat (- sh)))
         in if N = 10 ^ digits then (''1'', dp + 1) else (trim_zeros (digits10 N), dp)))"

definition fmtE :: "bool \<Rightarrow> string \<Rightarrow> int \<Rightarrow> nat \<Rightarrow> string" where
  "fmtE neg ds dp prec =
     (let nd = length ds;
          exp = (if nd = 0 then 0 else dp - 1);
          a = nat \<bar>exp\<bar>
      in (if neg then ''-'' else [])
         @ [if nd \<noteq> 0 then hd ds else CHR ''0'']
         @ (if prec > 0
            then ''.'' @ take prec (tl ds) @ replicate (prec - length (take prec (tl ds))) CHR ''0''
            else [])
         @ ''e'' @ (if exp < 0 then ''-'' else ''+'')
         @ (if a < 10 then ''0'' @ digits10 a else digits10 a))"

definition fmtF :: "bool \<Rightarrow> string \<Rightarrow> int \<Rightarrow> nat \<Rightarrow> string" where
  "fmtF neg ds dp prec =
     (let nd = length ds in
      (if neg then ''-'' else [])
      @ (if dp > 0 then take (nat dp) ds @ replicate (nat dp - nd) CHR ''0'' else ''0'')
      @ (if prec > 0
         then ''.'' @ map (\<lambda>i. let j = dp + int i in
                                if 0 \<le> j \<and> j < int nd then ds ! nat j else CHR ''0'') [0..<prec]
         else []))"

definition strconv_FormatFloat :: "float64 \<Rightarrow> int \<Rightarrow> string" where
  "strconv_FormatFloat v p =
     (if IsNaN v then ''NaN''
      else if IsInf v then (if sign_bit v then ''-Inf'' else ''+Inf'')
      else
        (let prec = (if p = 0 then 1 else nat p);
             r = round_decimal (fst (float_value v)) (snd (float_value v)) prec;
             ds = fst r; dp = snd r; nd = length ds;
             eprec = (if prec > nd \<and> int nd \<ge> dp then nd else prec);
             exp = dp - 1
         in if exp < - 4 \<or> exp \<ge> int eprec
            then fmtE (sign_bit v) ds dp ((if prec > nd then nd else prec) - 1)
            else fmtF (sign_bit v) ds dp
                   (nat (int (if int prec > dp then nd else prec) - dp))))"

section \<open>Decorator (decorator.go)\<close>

text \<open>
  The output sink is an \<open>io.Writer\<close>: some state with a \<open>Write\<close> method that returns
  the new state and an error or \<open>nil\<close>. \<open>strings.Builder\<close> is the sink whose
  \<open>Write\<close> appends and never fails.
\<close>

datatype 'w Writer = Writer (sink: 'w) (write_method: "'w \<Rightarrow> string \<Rightarrow> 'w \<times> error option")

definition Write :: "'w Writer \<Rightarrow> string \<Rightarrow> 'w Writer \<times> error option" where
  "Write w p = (Writer (fst (write_method w (sink w) p)) (write_method w),
                snd (write_method w (sink w) p))"

definition Builder_Write :: "string \<Rightarrow> string \<Rightarrow> string \<times> error option" where
  "Builder_Write buf p = (buf @ p, None)"

definition Builder :: "string Writer" where
  "Builder = Writer [] Builder_Write"

record 'w decorator =
  out :: "'w Writer"
  floatPrecision :: int
  err :: "error option"

definition handleError :: "'w decorator \<Rightarrow> error \<Rightarrow> 'w decorator" where
  "handleError d e = (if err d = None then d\<lparr>err := Some e\<rparr> else d)"

definition hadError :: "'w decorator \<Rightarrow> bool" where
  "hadError d = (err d \<noteq> None)"

definition put :: "'w decorator \<Rightarrow> string \<Rightarrow> 'w decorator" where
  "put d s =
     (if err d \<noteq> None then d
      else
        (let d1 = d\<lparr>out := fst (Write (out d) s)\<rparr> in
         case snd (Write (out d) s) of
           Some e \<Rightarrow> handleError d1 e
         | None \<Rightarrow> d1))"

definition marshalNull :: "'w decorator \<Rightarrow> 'w decorator" where
  "marshalNull d = put d ''null''"

definition marshalBool :: "'w decorator \<Rightarrow> bool \<Rightarrow> 'w decorator" where
  "marshalBool d v = (if v then put d ''true'' else put d ''false'')"

text \<open>
  \<open>strconv.FormatFloat(v, 'g', prec, 64)\<close> is the parameter \<open>FormatFloat\<close>, applied to
  the value and the precision.
\<close>

type_synonym format_float = "float64 \<Rightarrow> int \<Rightarrow> string"

definition marshalFloat64 :: "format_float \<Rightarrow> 'w decorator \<Rightarrow> float64 \<Rightarrow> 'w decorator" where
  "marshalFloat64 FormatFloat d v =
     (let d1 = (if IsInf v \<or> IsNaN v then handleError d (UnsupportedFloatValue v) else d)
      in put d1 (FormatFloat v (floatPrecision d1)))"

subsection \<open>String escaping\<close>

text \<open>
  The closure \<open>replace\<close> of \<open>scrambleStr\<close>, on the variables it captures: it writes
  the pending run \<open>s[b:c]\<close>, steps over the byte at \<open>c\<close> and writes the replacement.
\<close>

definition slice :: "string \<Rightarrow> nat \<Rightarrow> nat \<Rightarrow> string" where
  "slice s b c = take (c - b) (drop b s)"

definition replace :: "string \<Rightarrow> nat \<times> nat \<times> 'w decorator \<Rightarrow> string \<Rightarrow> nat \<times> nat \<times> 'w decorator" where
  "replace s st with =
     (case st of (c, b, d) \<Rightarrow>
        (let d1 = put d (slice s b c); c1 = c + 1; b1 = c1 in (c1, b1, put d1 with)))"

text \<open>
  The two \<open>\u00XX\<close> replacements: the byte arithmetic on the last character of
  \<open>"\\u0000"\<close> and of \<open>"\\u0010"\<close>.
\<close>

definition ctrl_low :: "char \<Rightarrow> string" where
  "ctrl_low cp =
     [bslash] @ ''u000'' @
     [char_of (byte CHR ''0'' + byte cp
        + (if byte cp \<ge> 0x0a then byte CHR ''a'' - byte CHR '':'' else 0))]"

definition ctrl_high :: "char \<Rightarrow> string" where
  "ctrl_high cp =
     [bslash] @ ''u001'' @
     [char_of (byte CHR ''0'' + (byte cp - 16)
        + (if byte cp \<ge> 0x1a then byte CHR ''a'' - byte CHR '':'' else 0))]"

text \<open>
  The loop \<open>for c != e\<close>; \<open>c\<close> starts at 0 and goes up by one in every iteration, so
  the loop condition is the one written here.
\<close>

function scrambleLoop :: "string \<Rightarrow> nat \<times> nat \<times> 'w decorator \<Rightarrow> nat \<times> nat \<times> 'w decorator" where
  "scrambleLoop s (c, b, d) =
     (if c < length s then
        (let cp = s ! c in
         if cp = CHR 0x08 then scrambleLoop s (replace s (c, b, d) [bslash, CHR ''b''])
         else if cp = CHR 0x0C then scrambleLoop s (replace s (c, b, d) [bslash, CHR ''f''])
         else if cp = CHR 0x0A then scrambleLoop s (replace s (c, b, d) [bslash, CHR ''n''])
         else if cp = CHR 0x0D then scrambleLoop s (replace s (c, b, d) [bslash, CHR ''r''])
         else if cp = CHR 0x09 then scrambleLoop s (replace s (c, b, d) [bslash, CHR ''t''])
         else if cp = bslash then scrambleLoop s (replace s (c, b, d) [bslash, bslash])
         else if cp = dquote then scrambleLoop s (replace s (c, b, d) [bslash, dquote])
         else if byte cp \<le> 0x0f then scrambleLoop s (replace s (c, b, d) (ctrl_low cp))
         else if byte cp \<le> 0x1f then scrambleLoop s (replace s (c, b, d) (ctrl_high cp))
         else scrambleLoop s (c + 1, b, d))
      else (c, b, d))"
  by pat_completeness auto
termination
  by (relation "measure (\<lambda>(s, c, b, d). length s - c)") (auto simp: replace_def Let_def)

declare scrambleLoop.simps [simp del]

definition scrambleStr :: "'w decorator \<Rightarrow> string \<Rightarrow> 'w decorator" where
  "scrambleStr d s =
     (if s = [] \<or> hadError d then d
      else
        (case scrambleLoop s (0, 0, d) of (c, b, d1) \<Rightarrow>
           if c \<noteq> b then put d1 (slice s b c) else d1))"

definition marshalString :: "'w decorator \<Rightarrow> string \<Rightarrow> 'w decorator" where
  "marshalString d v = put (scrambleStr (put d [dquote]) v) [dquote]"

subsection \<open>Objects and arrays\<close>

definition objectBegin :: "'w decorator \<Rightarrow> 'w decorator" where
  "objectBegin d = d"

definition objectField :: "'w decorator \<Rightarrow> string \<Rightarrow> bool \<Rightarrow> 'w decorator" where
  "objectField d name first =
     (let d1 = (if first then put d (''{'' @ [dquote]) else put d ('','' @ [dquote]))
      in put (scrambleStr d1 name) ([dquote] @ '':''))"

definition objectEnd :: "'w decorator \<Rightarrow> bool \<Rightarrow> 'w decorator" where
  "objectEnd d wasEmpty = (if wasEmpty then put d ''{}'' else put d ''}'')"

definition arrayBegin :: "'w decorator \<Rightarrow> 'w decorator" where
  "arrayBegin d = d"

definition arrayElement :: "'w decorator \<Rightarrow> bool \<Rightarrow> 'w decorator" where
  "arrayElement d first = (if first then put d ''['' else put d '','')"

definition arrayEnd :: "'w decorator \<Rightarrow> bool \<Rightarrow> 'w decorator" where
  "arrayEnd d wasEmpty = (if wasEmpty then put d ''[]'' else put d '']'')"

section \<open>Value marshaling (decorator.go, writer.go)\<close>

text \<open>
  A Go value as \<open>marshalValue\<close> sees it through \<open>reflect\<close>.
  \<^item> \<open>GNil\<close> is the nil interface value (\<open>reflect.ValueOf\<close> gives the invalid Value);
    \<open>GPtr\<close> is a pointer and \<open>GIface\<close> a value of interface kind (found behind a
    pointer), \<open>None\<close> for nil.
  \<^item> The four function types of the type switch are given by what the function does
    with the writer it receives: the \<open>Element\<close> or \<open>Member\<close> calls it makes, in order,
    and the error it returns.
  \<^item> \<open>GNamed n vm pm u\<close> is a value of a type named \<open>n\<close> with underlying value \<open>u\<close>;
    \<open>vm\<close> are the marshaling methods in the method set of the type, \<open>pm\<close> those that
    only the method set of the pointer type has. One \<open>MarshalJSN\<close> method
    (of an \<open>ObjMarshaler\<close>, \<open>ArrMarshaler\<close> or \<open>StrMarshaler\<close>) and one \<open>MarshalText\<close>
    method can be there, each given by what it does on this value.
  \<^item> \<open>GSlice\<close> is a slice or array whose element kind is not \<open>uint8\<close>. \<open>GBytes\<close> is a
    slice whose element kind is \<open>uint8\<close>, or an array whose element type is \<open>uint8\<close>
    itself; \<open>GByteArray\<close> is an array whose element type is another type of kind
    \<open>uint8\<close> (\<open>type B byte\<close>, \<open>[4]B\<close>). Both carry their bytes.
  \<^item> \<open>GMap\<close> is a map with keys of string kind, as the list of its entries in the
    iteration order of this run (its keys are distinct).
  \<^item> \<open>GOther\<close> is a value of any other kind (struct, channel, complex, ...), with the
    name of its type.
\<close>

datatype 'v marshalJSN =
    ObjMarshalJSN "(string \<times> 'v) list" "error option"
  | ArrMarshalJSN "'v list" "error option"
  | StrMarshalJSN string "error option"

datatype 'v methods =
  Methods (jsn_method: "'v marshalJSN option") (text_method: "(string \<times> error option) option")

datatype gvalue =
    GNil
  | GPtr "gvalue option"
  | GIface "gvalue option"
  | GArrayFunc "gvalue list"
  | GArrayFuncErr "gvalue list" "error option"
  | GObjectFunc "(string \<times> gvalue) list"
  | GObjectFuncErr "(string \<times> gvalue) list" "error option"
  | GNamed string "gvalue methods" "gvalue methods" gvalue
  | GSlice "gvalue list"
  | GMap "(string \<times> gvalue) list"
  | GInt int
  | GUint nat
  | GFloat float64
  | GString string
  | GBool bool
  | GBytes string
  | GByteArray string
  | GOther string

fun type_name :: "gvalue \<Rightarrow> string" where
  "type_name (GNamed n vm pm u) = n"
| "type_name (GArrayFunc es) = ''func(jsn.ArrayWriter)''"
| "type_name (GArrayFuncErr es e) = ''func(jsn.ArrayWriter) error''"
| "type_name (GObjectFunc ms) = ''func(jsn.ObjectWriter)''"
| "type_name (GObjectFuncErr ms e) = ''func(jsn.ObjectWriter) error''"
| "type_name (GOther n) = n"
| "type_name v = []"

text \<open>
  \<open>marshalValue\<close>, in the order of the source: the early exit; the two null checks, of
  which the second (a nil pointer) has no \<open>return\<close>; the type switch on functions
  (\<open>marshalFuncs\<close>); the loop that unwraps interfaces and pointers (\<open>marshalDeref\<close>,
  whose flag is \<open>val.CanAddr()\<close>: true after a pointer was followed); the capabilities
  of the value (\<open>marshalCaps\<close>) and of its address (\<open>marshalPtrCaps\<close>); slices, maps and
  the switch on the kind (\<open>marshalKind\<close>, which gets \<open>val.CanAddr()\<close> too). An array of
  bytes that is addressable is sliced and read with \<open>Bytes\<close>; one that is not is copied
  with \<open>reflect.Copy\<close> into a \<open>[]byte\<close>, and \<open>reflect.Copy\<close> panics when the element
  types differ. The panic is recorded in the place of the first error, where nothing that
  the model runs afterwards changes it or writes anything: \<open>Some (Panic n)\<close> is the
  outcome "the call panics in \<open>n\<close>", not a returned error. \<open>Element_calls\<close> and \<open>Member_calls\<close> run the
  calls a callback makes on its \<open>arrayWriter\<close> or \<open>objectWriter\<close> and return the counter
  with the decorator. \<open>marshalSlice\<close> and \<open>marshalPairs\<close> are the two \<open>for\<close> loops with
  their early \<open>return\<close> and, at the end of the loop, the call that follows it
  (\<open>val.Len() == 0\<close> is \<open>i = 0\<close> there). \<open>sort.Slice\<close> orders the pairs by key; the
  keys of a map being distinct, every sorting algorithm gives the same slice.
\<close>

lemma size_list_insort_key:
  "size_list f (insort_key g x xs) = size_list f (x # xs)"
  by (induction xs) auto

lemma size_list_sort_key:
  "size_list f (sort_key g xs) = size_list f xs"
  by (induction xs) (auto simp: size_list_insort_key)

lemma size_prod_snd:
  "size_prod (\<lambda>x. 0) f = (\<lambda>x. Suc (f (snd x)))"
  by (auto simp: fun_eq_iff)

function (sequential) marshalValue :: "format_float \<Rightarrow> 'w decorator \<Rightarrow> gvalue \<Rightarrow> 'w decorator"
  and marshalFuncs :: "format_float \<Rightarrow> 'w decorator \<Rightarrow> gvalue \<Rightarrow> 'w decorator"
  and marshalDeref :: "format_float \<Rightarrow> 'w decorator \<Rightarrow> bool \<Rightarrow> gvalue \<Rightarrow> 'w decorator"
  and marshalCaps :: "format_float \<Rightarrow> 'w decorator \<Rightarrow> bool \<Rightarrow> gvalue \<Rightarrow> 'w decorator"
  and marshalPtrCaps :: "format_float \<Rightarrow> 'w decorator \<Rightarrow> string \<Rightarrow> gvalue methods \<Rightarrow> gvalue \<Rightarrow> 'w decorator"
  and marshalKind :: "format_float \<Rightarrow> 'w decorator \<Rightarrow> bool \<Rightarrow> string \<Rightarrow> gvalue \<Rightarrow> 'w decorator"
  and marshalObj :: "format_float \<Rightarrow> 'w decorator \<Rightarrow> (string \<times> gvalue) list \<Rightarrow> error option \<Rightarrow> 'w decorator"
  and marshalArr :: "format_float \<Rightarrow> 'w decorator \<Rightarrow> gvalue list \<Rightarrow> error option \<Rightarrow> 'w decorator"
  and Element_calls :: "format_float \<Rightarrow> 'w decorator \<Rightarrow> nat \<Rightarrow> gvalue list \<Rightarrow> 'w decorator \<times> nat"
  and Member_calls :: "format_float \<Rightarrow> 'w decorator \<Rightarrow> nat \<Rightarrow> (string \<times> gvalue) list \<Rightarrow> 'w decorator \<times> nat"
  and marshalSlice :: "format_float \<Rightarrow> 'w decorator \<Rightarrow> nat \<Rightarrow> gvalue list \<Rightarrow> 'w decorator"
  and marshalPairs :: "format_float \<Rightarrow> 'w decorator \<Rightarrow> nat \<Rightarrow> (string \<times> gvalue) list \<Rightarrow> 'w decorator"
where
  "marshalValue F d v =
     (if hadError d then d
      else if v = GNil then marshalNull d
      else marshalFuncs F (if v = GPtr None then marshalNull d else d) v)"

| "marshalFuncs F d v =
     (case v of
        GArrayFunc es \<Rightarrow>
          (case Element_calls F (arrayBegin d) 0 es of (d1, n) \<Rightarrow> arrayEnd d1 (n = 0))
      | GArrayFuncErr es e \<Rightarrow>
          (case Element_calls F (arrayBegin d) 0 es of (d1, n) \<Rightarrow>
             (case e of Some x \<Rightarrow> handleError d1 x | None \<Rightarrow> arrayEnd d1 (n = 0)))
      | GObjectFunc ms \<Rightarrow>
          (case Member_calls F (objectBegin d) 0 ms of (d1, n) \<Rightarrow> objectEnd d1 (n = 0))
      | GObjectFuncErr ms e \<Rightarrow>
          (case Member_calls F (objectBegin d) 0 ms of (d1, n) \<Rightarrow>
             (case e of Some x \<Rightarrow> handleError d1 x | None \<Rightarrow> objectEnd d1 (n = 0)))
      | _ \<Rightarrow> marshalDeref F d False v)"

| "marshalDeref F d a v =
     (case v of
        GPtr None \<Rightarrow> marshalNull d
      | GIface None \<Rightarrow> marshalNull d
      | GPtr (Some u) \<Rightarrow> marshalDeref F d True u
      | GIface (Some u) \<Rightarrow> marshalDeref F d False u
      | _ \<Rightarrow> marshalCaps F d a v)"

| "marshalCaps F d a v =
     (case v of
        GNamed n vm pm u \<Rightarrow>
          (case vm of
             Methods (Some (ObjMarshalJSN ms e)) t \<Rightarrow> marshalObj F d ms e
           | Methods (Some (ArrMarshalJSN es e)) t \<Rightarrow> marshalArr F d es e
           | Methods (Some (StrMarshalJSN s e)) t \<Rightarrow>
               (case e of Some x \<Rightarrow> handleError d x | None \<Rightarrow> marshalString d s)
           | Methods None (Some (s, e)) \<Rightarrow>
               marshalString (case e of Some x \<Rightarrow> handleError d x | None \<Rightarrow> d) s
           | Methods None None \<Rightarrow>
               (if a then marshalPtrCaps F d n pm u else marshalKind F d a n u))
      | _ \<Rightarrow> marshalKind F d a (type_name v) v)"

| "marshalPtrCaps F d n pm u =
     (case pm of
        Methods (Some (ObjMarshalJSN ms e)) t \<Rightarrow> marshalObj F d ms e
      | Methods (Some (ArrMarshalJSN es e)) t \<Rightarrow> marshalArr F d es e
      | Methods (Some (StrMarshalJSN s e)) t \<Rightarrow>
          (case e of Some x \<Rightarrow> handleError d x | None \<Rightarrow> marshalString d s)
      | Methods None (Some (s, e)) \<Rightarrow>
          (case e of Some x \<Rightarrow> handleError d x | None \<Rightarrow> marshalString d s)
      | Methods None None \<Rightarrow> marshalKind F d True n u)"

| "marshalKind F d a tn v =
     (case v of
        GSlice es \<Rightarrow> marshalSlice F (arrayBegin d) 0 es
      | GMap kvs \<Rightarrow> marshalPairs F (objectBegin d) 0 (sort_key fst kvs)
      | GInt i \<Rightarrow> put d (FormatInt i)
      | GUint n \<Rightarrow> put d (FormatUint n)
      | GFloat x \<Rightarrow> marshalFloat64 F d x
      | GString s \<Rightarrow> marshalString d s
      | GBool b \<Rightarrow> marshalBool d b
      | GBytes bs \<Rightarrow> marshalString d bs
      | GByteArray bs \<Rightarrow>
          (if a then marshalString d bs else d\<lparr>err := Some (Panic ''reflect.Copy'')\<rparr>)
      | _ \<Rightarrow> handleError d (UnsupportedTypeError tn))"

| "marshalObj F d ms e =
     (if hadError d then d
      else
        (case Member_calls F (objectBegin d) 0 ms of (d1, n) \<Rightarrow>
           objectEnd (case e of Some x \<Rightarrow> handleError d1 x | None \<Rightarrow> d1) (n = 0)))"
| "marshalArr F d es e =
     (if hadError d then d
      else
        (case Element_calls F (arrayBegin d) 0 es of (d1, n) \<Rightarrow>
           arrayEnd (case e of Some x \<Rightarrow> handleError d1 x | None \<Rightarrow> d1) (n = 0)))"

| "Element_calls F d n [] = (d, n)"
| "Element_calls F d n (v # vs) =
     Element_calls F (marshalValue F (arrayElement d (n = 0)) v) (n + 1) vs"
| "Member_calls F d n [] = (d, n)"
| "Member_calls F d n (kv # ms) =
     Member_calls F (marshalValue F (objectField d (fst kv) (n = 0)) (snd kv)) (n + 1) ms"

| "marshalSlice F d i [] = arrayEnd d (i = 0)"
| "marshalSlice F d i (v # vs) =
     (let d1 = marshalValue F (arrayElement d (i = 0)) v in
      if hadError d1 then d1 else marshalSlice F d1 (i + 1) vs)"
| "marshalPairs F d i [] = objectEnd d (i = 0)"
| "marshalPairs F d i (kv # kvs) =
     (let d1 = marshalValue F (objectField d (fst kv) (i = 0)) (snd kv) in
      if hadError d1 then d1 else marshalPairs F d1 (i + 1) kvs)"
  by pat_completeness auto
termination
  by (relation "measure (\<lambda>x. case x of
        Inl (Inl (Inl (F, d, v))) \<Rightarrow> 16 * size v + 6
      | Inl (Inl (Inr (Inl (F, d, v)))) \<Rightarrow> 16 * size v + 5
      | Inl (Inl (Inr (Inr (F, d, a, v)))) \<Rightarrow> 16 * size v + 4
      | Inl (Inr (Inl (F, d, a, v))) \<Rightarrow> 16 * size v + 3
      | Inl (Inr (Inr (Inl (F, d, n, pm, u)))) \<Rightarrow> 16 * (size_methods size pm + size u) + 2
      | Inl (Inr (Inr (Inr (F, d, a, tn, v)))) \<Rightarrow> 16 * size v + 1
      | Inr (Inl (Inl (F, d, ms, e))) \<Rightarrow> 16 * size_list (size_prod (\<lambda>x. 0) size) ms + 1
      | Inr (Inl (Inr (Inl (F, d, es, e)))) \<Rightarrow> 16 * size_list size es + 1
      | Inr (Inl (Inr (Inr (F, d, n, es)))) \<Rightarrow> 16 * size_list size es
      | Inr (Inr (Inl (F, d, n, ms))) \<Rightarrow> 16 * size_list (size_prod (\<lambda>x. 0) size) ms
      | Inr (Inr (Inr (Inl (F, d, i, es)))) \<Rightarrow> 16 * size_list size es
      | Inr (Inr (Inr (Inr (F, d, i, kvs)))) \<Rightarrow> 16 * size_list (size_prod (\<lambda>x. 0) size) kvs)")
    (auto simp: size_list_sort_key size_prod_snd)

declare marshalValue.simps [simp del] marshalFuncs.simps [simp del] marshalDeref.simps [simp del]
  marshalCaps.simps [simp del] marshalPtrCaps.simps [simp del] marshalKind.simps [simp del]
  marshalObj.simps [simp del] marshalArr.simps [simp del]

subsection \<open>Marshal (writer.go)\<close>

text \<open>
  The options of \<open>Marshal\<close> are values of any type; \<open>parseMarshalOptions\<close> looks at
  those of type \<open>FloatPrecision\<close> and passes over the others.
\<close>

datatype marshal_option = FloatPrecision int | OtherOption

fun parseMarshalOptions_loop :: "int \<Rightarrow> marshal_option list \<Rightarrow> int \<times> error option" where
  "parseMarshalOptions_loop precision [] = (precision, None)"
| "parseMarshalOptions_loop precision (FloatPrecision p # opts) =
     (if p < 0 then (0, Some (InvalidFloatPrecision p)) else parseMarshalOptions_loop p opts)"
| "parseMarshalOptions_loop precision (OtherOption # opts) =
     parseMarshalOptions_loop precision opts"

definition parseMarshalOptions :: "marshal_option list \<Rightarrow> int \<times> error option" where
  "parseMarshalOptions opts = parseMarshalOptions_loop 6 opts"

definition Marshal :: "format_float \<Rightarrow> gvalue \<Rightarrow> marshal_option list \<Rightarrow> string \<times> error option" where
  "Marshal F v opts =
     (case parseMarshalOptions opts of
        (precision, Some e) \<Rightarrow> ([], Some e)
      | (precision, None) \<Rightarrow>
          (let d = marshalValue F \<lparr>out = Builder, floatPrecision = precision, err = None\<rparr> v in
           if err d \<noteq> None then ([], err d) else (sink (out d), None)))"

section \<open>Value reader (reader.go)\<close>

text \<open>
  The scanner's operations leave the input alone and never move the cursor back; a
  string that is read moves it forward. \<open>ReadValue\<close> terminates because of this.
\<close>

lemma skipWhitespace_data [simp]: "data (skipWhitespace s) = data s"
proof (induction s rule: skipWhitespace.induct)
  case (1 s)
  show ?case
    using "1.IH" by (subst skipWhitespace.simps) (simp add: Let_def)
qed

lemma skipWhitespace_flags [simp]: "flags (skipWhitespace s) = flags s"
proof (induction s rule: skipWhitespace.induct)
  case (1 s)
  show ?case
    using "1.IH" by (subst skipWhitespace.simps) (simp add: Let_def)
qed

lemma skipWhitespace_cur_ge: "cur s \<le> cur (skipWhitespace s)"
proof (induction s rule: skipWhitespace.induct)
  case (1 s)
  show ?case
  proof (cases "cur s < length (data s) \<and> is_ws (data s ! cur s)")
    case True
    then have "cur (s\<lparr>cur := cur s + 1\<rparr>) \<le> cur (skipWhitespace (s\<lparr>cur := cur s + 1\<rparr>))"
      using "1.IH" by (simp add: is_ws_def)
    then show ?thesis
      using True by (subst skipWhitespace.simps) (simp add: is_ws_def Let_def)
  next
    case False
    then show ?thesis
      by (subst skipWhitespace.simps) (auto simp: is_ws_def Let_def)
  qed
qed

definition advanced :: "scanner \<Rightarrow> scanner \<Rightarrow> bool" where
  "advanced s s' = (data s' = data s \<and> cur s \<le> cur s')"

lemma advanced_refl [simp]: "advanced s s"
  by (simp add: advanced_def)

lemma advanced_trans: "advanced s s1 \<Longrightarrow> advanced s1 s2 \<Longrightarrow> advanced s s2"
  by (auto simp: advanced_def)

lemma advanced_skipWhitespace: "advanced s (skipWhitespace s)"
  by (simp add: advanced_def skipWhitespace_cur_ge)

lemma advanced_skipByte: "advanced s (snd (skipByte s b))"
  by (simp add: skipByte_def advanced_def)

lemma skipByte_True_cur: "fst (skipByte s b) \<Longrightarrow> cur (snd (skipByte s b)) = cur s + 1"
  by (simp add: skipByte_def split: if_splits)

lemma advanced_skipDigitsLoop: "advanced s (skipDigitsLoop s)"
proof (induction s rule: skipDigitsLoop.induct)
  case (1 s)
  show ?case
  proof (cases "isDecimalDigit s")
    case True
    then have "advanced (s\<lparr>cur := cur s + 1\<rparr>) (skipDigitsLoop (s\<lparr>cur := cur s + 1\<rparr>))"
      using "1.IH" by simp
    then have "advanced s (skipDigitsLoop (s\<lparr>cur := cur s + 1\<rparr>))"
      by (simp add: advanced_def)
    then show ?thesis
      using True by (subst skipDigitsLoop.simps) simp
  next
    case False
    then show ?thesis by (subst skipDigitsLoop.simps) simp
  qed
qed

lemma advanced_skipDecimalDigits: "advanced s (snd (skipDecimalDigits s))"
  by (simp add: skipDecimalDigits_def Let_def advanced_skipDigitsLoop)

lemma advanced_skipExpMarker: "advanced s (snd (skipExpMarker s))"
  by (simp add: skipExpMarker_def advanced_skipByte)

lemma advanced_skipSequence: "advanced s (snd (skipSequence s seq))"
  by (simp add: skipSequence_def advanced_def)

lemma parseNumber_integer_advanced:
  assumes "parseNumber_integer s = Inr s'"
  shows "advanced s s'"
proof -
  define s1 where "s1 = snd (skipByte s CHR ''-'')"
  have a1: "advanced s s1"
    unfolding s1_def by (rule advanced_skipByte)
  have a2: "advanced s1 (snd (skipByte s1 CHR ''0''))"
    by (rule advanced_skipByte)
  have "advanced (s1\<lparr>cur := cur s1 + 1\<rparr>) (snd (skipDecimalDigits (s1\<lparr>cur := cur s1 + 1\<rparr>)))"
    by (rule advanced_skipDecimalDigits)
  then have a3: "advanced s1 (snd (skipDecimalDigits (s1\<lparr>cur := cur s1 + 1\<rparr>)))"
    by (simp add: advanced_def)
  have "s' = snd (skipByte s1 CHR ''0'') \<or> s' = snd (skipDecimalDigits (s1\<lparr>cur := cur s1 + 1\<rparr>))"
    using assms unfolding parseNumber_integer_def s1_def [symmetric] Let_def
    by (simp split: if_splits)
  then show ?thesis
    using a1 a2 a3 by (auto intro: advanced_trans)
qed

lemma parseNumber_fraction_advanced:
  assumes "parseNumber_fraction s = Inr s'"
  shows "advanced s s'"
proof -
  define s1 where "s1 = snd (skipByte s CHR ''.'')"
  define s2 where "s2 = snd (skipDecimalDigits s1)"
  have a: "advanced s s1" "advanced s1 s2" "advanced s2 (snd (skipByte s2 CHR ''.''))"
    unfolding s1_def s2_def
    by (rule advanced_skipByte advanced_skipDecimalDigits)+
  have "s' = s1 \<or> s' = snd (skipByte s2 CHR ''.'')"
    using assms unfolding parseNumber_fraction_def s1_def [symmetric] Let_def s2_def [symmetric]
    by (simp split: if_splits)
  then show ?thesis
    using a by (auto intro: advanced_trans)
qed

lemma parseNumber_exponent_advanced:
  assumes "parseNumber_exponent s = Inr s'"
  shows "advanced s s'"
proof -
  define s1 where "s1 = snd (skipExpMarker s)"
  define s2 where "s2 = (if \<not> fst (skipByte s1 CHR ''+'')
                   then snd (skipByte (snd (skipByte s1 CHR ''+'')) CHR ''-'')
                   else snd (skipByte s1 CHR ''+''))"
  define s3 where "s3 = snd (skipDecimalDigits s2)"
  have a1: "advanced s s1"
    unfolding s1_def by (rule advanced_skipExpMarker)
  have a2: "advanced s1 s2"
    unfolding s2_def
    by (auto intro: advanced_trans [OF advanced_skipByte advanced_skipByte] advanced_skipByte)
  have a3: "advanced s2 s3" "advanced s3 (snd (skipExpMarker s3))"
    unfolding s3_def by (rule advanced_skipDecimalDigits advanced_skipExpMarker)+
  have "s' = s1 \<or> s' = snd (skipExpMarker s3)"
    using assms
    unfolding parseNumber_exponent_def s1_def [symmetric] Let_def s2_def [symmetric]
      s3_def [symmetric]
    by (simp split: if_splits)
  then show ?thesis
    using a1 a2 a3 by (auto intro: advanced_trans)
qed

lemma parseNumber_advanced:
  assumes "parseNumber P s = Inr (x, s')"
  shows "advanced s s'"
proof -
  obtain s1 s2 where "parseNumber_integer s = Inr s1" "parseNumber_fraction s1 = Inr s2"
    "parseNumber_exponent s2 = Inr s'"
    using assms unfolding parseNumber_def Let_def
    by (auto split: sum.splits prod.splits option.splits if_splits)
  then show ?thesis
    using parseNumber_integer_advanced parseNumber_fraction_advanced
      parseNumber_exponent_advanced advanced_trans by blast
qed

lemma parseString_fast_advanced:
  "parseString_fast start s = Return (Inr (str, s')) \<Longrightarrow> advanced s s' \<and> cur s < cur s'"
proof (induction start s rule: parseString_fast.induct)
  case (1 start s)
  show ?case
  proof (cases "cur s < length (data s) \<and> \<not> byte (data s ! cur s) \<le> 0x1F
      \<and> data s ! cur s \<noteq> bslash \<and> data s ! cur s \<noteq> dquote")
    case True
    then have "parseString_fast start (s\<lparr>cur := cur s + 1\<rparr>) = Return (Inr (str, s'))"
      using "1.prems" by (subst (asm) parseString_fast.simps) (simp add: Let_def)
    then have "advanced (s\<lparr>cur := cur s + 1\<rparr>) s' \<and> cur (s\<lparr>cur := cur s + 1\<rparr>) < cur s'"
      using "1.IH" True by simp
    then show ?thesis
      by (simp add: advanced_def)
  next
    case False
    then show ?thesis
      using "1.prems"
      by (subst (asm) parseString_fast.simps) (auto simp: Let_def advanced_def split: if_splits)
  qed
qed

lemma parseString_slow_step:
  assumes "parseString_slow buf s = Inr (str, s')"
  shows "(s' = s\<lparr>cur := cur s + 1\<rparr> \<and> str = buf \<and> cur s < length (data s))
    \<or> (\<exists>buf' s1. parseString_slow buf' s1 = Inr (str, s') \<and> data s1 = data s
          \<and> cur s < cur s1 \<and> cur s1 \<le> length (data s))"
proof -
  have lt: "cur s < length (data s)"
    using assms by (subst (asm) parseString_slow.simps) (auto simp: next_def split: if_splits)
  define c where "c = data s ! cur s"
  define s1 where "s1 = s\<lparr>cur := cur s + 1\<rparr>"
  have nx: "next s = (c, s1)"
    using lt by (simp add: next_def c_def s1_def)
  have eq: "parseString_slow buf s =
     (if c = CHR 0x00 then Inl ErrInvalidString
      else if byte c \<le> 0x1F then Inl ErrInvalidString
      else if c = dquote then Inr (buf, s1)
      else if c = bslash then
        (if cur s1 \<ge> length (data s1) then Inl ErrInvalidString
         else
           (let c2 = peek s1 in
            if c2 = dquote \<or> c2 = bslash \<or> c2 = CHR ''/'' \<or> c2 = CHR ''b'' \<or> c2 = CHR ''f''
               \<or> c2 = CHR ''n'' \<or> c2 = CHR ''r'' \<or> c2 = CHR ''t'' \<or> c2 = CHR ''u''
            then
              (let s2 = s1\<lparr>cur := cur s1 + 1\<rparr> in
               if c2 = dquote \<or> c2 = bslash \<or> c2 = CHR ''/'' then parseString_slow (buf @ [c2]) s2
               else if c2 = CHR ''b'' then parseString_slow (buf @ [CHR 0x08]) s2
               else if c2 = CHR ''f'' then parseString_slow (buf @ [CHR 0x0C]) s2
               else if c2 = CHR ''n'' then parseString_slow (buf @ [CHR 0x0A]) s2
               else if c2 = CHR ''r'' then parseString_slow (buf @ [CHR 0x0D]) s2
               else if c2 = CHR ''t'' then parseString_slow (buf @ [CHR 0x09]) s2
               else
                 (case parseUnicode s2 of
                    Inl e \<Rightarrow> Inl e
                  | Inr (r, s3) \<Rightarrow> parseString_slow (buf @ string_of_rune r) s3))
            else Inl ErrInvalidString))
      else parseString_slow (buf @ [c]) s1)"
    by (subst parseString_slow.simps) (simp add: nx)
  have rec: "\<And>buf' s2. parseString_slow buf' s2 = Inr (str, s') \<Longrightarrow> data s2 = data s
      \<Longrightarrow> cur s < cur s2 \<Longrightarrow> cur s2 \<le> length (data s) \<Longrightarrow> ?thesis"
    by blast
  show ?thesis
  proof (cases "c = dquote")
    case True
    then show ?thesis
      using assms lt unfolding eq by (simp add: s1_def split: if_splits)
  next
    case nq: False
    show ?thesis
    proof (cases "c = bslash")
      case False
      then have "parseString_slow (buf @ [c]) s1 = Inr (str, s')"
        using assms nq unfolding eq by (simp split: if_splits)
      then show ?thesis
        by (rule rec) (use lt in \<open>simp_all add: s1_def\<close>)
    next
      case True
      have lt1: "cur s1 < length (data s1)"
        using assms nq True unfolding eq by (simp split: if_splits)
      define s2 where "s2 = s1\<lparr>cur := cur s1 + 1\<rparr>"
      have d2: "data s2 = data s" "cur s < cur s2" "cur s2 \<le> length (data s)"
        using lt1 by (simp_all add: s2_def s1_def)
      consider (plain) buf' where "parseString_slow buf' s2 = Inr (str, s')"
        | (uni) r s3 where "parseUnicode s2 = Inr (r, s3)"
            "parseString_slow (buf @ string_of_rune r) s3 = Inr (str, s')"
        using assms nq True lt1 unfolding eq Let_def s2_def [symmetric]
        by (auto split: if_splits sum.splits prod.splits)
      then show ?thesis
      proof cases
        case plain
        then show ?thesis using d2 by (rule rec)
      next
        case uni
        have "s3 = s2\<lparr>cur := cur s2 + 4\<rparr>" "cur s2 + 4 \<le> length (data s2)"
          using uni(1) by (auto simp: parseUnicode_def Let_def split: if_splits option.splits)
        then show ?thesis
          using uni(2) d2 by (intro rec [of _ s3]) simp_all
      qed
    qed
  qed
qed

lemma parseString_slow_advanced:
  "parseString_slow buf s = Inr (str, s') \<Longrightarrow> advanced s s' \<and> cur s < cur s'"
proof (induction "length (data s) - cur s" arbitrary: buf s rule: less_induct)
  case less
  from parseString_slow_step [OF less.prems] show ?case
  proof (elim disjE exE conjE)
    assume "s' = s\<lparr>cur := cur s + 1\<rparr>"
    then show ?thesis by (simp add: advanced_def)
  next
    fix buf' s1
    assume a: "parseString_slow buf' s1 = Inr (str, s')" "data s1 = data s" "cur s < cur s1"
      "cur s1 \<le> length (data s)"
    then have "length (data s1) - cur s1 < length (data s) - cur s"
      by simp
    then have "advanced s1 s' \<and> cur s1 < cur s'"
      using less.hyps a(1) by blast
    then show ?thesis
      using a by (simp add: advanced_def)
  qed
qed

lemma parseString_advanced:
  assumes "parseString s = Inr (str, s')"
  shows "advanced s s' \<and> cur s < cur s'"
proof -
  define s1 where "s1 = s\<lparr>cur := cur s + 1\<rparr>"
  have "parseString_fast (cur s1) s1 = Return (Inr (str, s'))
      \<or> parseString_slow [] (s1\<lparr>cur := cur s1\<rparr>) = Inr (str, s')"
    using assms unfolding parseString_def Let_def s1_def [symmetric]
    by (auto split: if_splits fast_result.splits)
  then have "advanced s1 s' \<and> cur s1 < cur s'"
    using parseString_fast_advanced [of "cur s1" s1 str s']
      parseString_slow_advanced [of "[]" s1 str s'] by auto
  then show ?thesis
    by (simp add: advanced_def s1_def)
qed

text \<open>
  A decoded value is a Go value built from \<open>nil\<close>, \<open>bool\<close>, \<open>float64\<close>, \<open>string\<close>,
  \<open>[]any\<close> and \<open>map[string]any\<close>: \<open>GNil\<close>, \<open>GBool\<close>, \<open>GFloat\<close>, \<open>GString\<close>,
  \<open>GSlice\<close>, \<open>GMap\<close>. The assignment \<open>m[key] = val\<close> is \<open>AList.update\<close>: the value of
  a key that is there is replaced, a new key is added.

  \<open>ReadValue\<close> with the two loops of its \<open>switch\<close>: \<open>readObjectLoop\<close> is the \<open>for\<close>
  loop of the case \<open>{\<close> with the map built so far, \<open>readArrayLoop\<close> the one of the case
  \<open>[\<close> with the slice built so far. An error ends the call; the scanner is then left
  out of the result.
\<close>

function ReadValue :: "parse_float \<Rightarrow> scanner \<Rightarrow> error + (gvalue \<times> scanner)"
  and readObjectLoop :: "parse_float \<Rightarrow> (string \<times> gvalue) list \<Rightarrow> scanner \<Rightarrow> error + (gvalue \<times> scanner)"
  and readArrayLoop :: "parse_float \<Rightarrow> gvalue list \<Rightarrow> scanner \<Rightarrow> error + (gvalue \<times> scanner)"
where
  "ReadValue P s0 =
     (let s = skipWhitespace s0 in
      if IsEOF s then Inl ErrUnexpectedEOF
      else if peek s = CHR ''{'' then
        (let s1 = skipWhitespace (s\<lparr>cur := cur s + 1\<rparr>) in
         if fst (skipByte s1 CHR ''}'') then Inr (GMap [], snd (skipByte s1 CHR ''}''))
         else readObjectLoop P [] s1)
      else if peek s = CHR ''['' then
        (let s1 = skipWhitespace (s\<lparr>cur := cur s + 1\<rparr>) in
         if fst (skipByte s1 CHR '']'') then Inr (GSlice [], snd (skipByte s1 CHR '']''))
         else readArrayLoop P [] s1)
      else if peek s = dquote then
        (case parseString s of Inl e \<Rightarrow> Inl e | Inr (str, s1) \<Rightarrow> Inr (GString str, s1))
      else if peek s = CHR ''t'' then
        (if \<not> fst (skipSequence s ''true'') then Inl ErrUnexpectedToken
         else Inr (GBool True, snd (skipSequence s ''true'')))
      else if peek s = CHR ''f'' then
        (if \<not> fst (skipSequence s ''false'') then Inl ErrUnexpectedToken
         else Inr (GBool False, snd (skipSequence s ''false'')))
      else if peek s = CHR ''n'' then
        (if \<not> fst (skipSequence s ''null'') then Inl ErrUnexpectedToken
         else Inr (GNil, snd (skipSequence s ''null'')))
      else if peek s = CHR ''-'' \<or> is_digit (peek s) then
        (case parseNumber P s of Inl e \<Rightarrow> Inl e | Inr (x, s1) \<Rightarrow> Inr (GFloat x, s1))
      else Inl ErrUnexpectedToken)"
| "readObjectLoop P m s0 =
     (let s = skipWhitespace s0 in
      if IsEOF s then Inl ErrUnexpectedEOF
      else
        (case parseString s of
           Inl e \<Rightarrow> Inl e
         | Inr (key, s1) \<Rightarrow>
             (let s2 = skipWhitespace s1 in
              if IsEOF s2 then Inl ErrUnexpectedEOF
              else if \<not> fst (skipByte s2 CHR '':'') then Inl ErrUnexpectedToken
              else
                (case ReadValue P (snd (skipByte s2 CHR '':'')) of
                   Inl e \<Rightarrow> Inl e
                 | Inr (val, s3) \<Rightarrow>
                     (let s4 = skipWhitespace s3 in
                      if IsEOF s4 then Inl ErrUnexpectedEOF
                      else if fst (skipByte s4 CHR ''}'')
                      then Inr (GMap (AList.update key val m), snd (skipByte s4 CHR ''}''))
                      else if \<not> fst (skipByte s4 CHR '','') then Inl ErrUnexpectedToken
                      else readObjectLoop P (AList.update key val m)
                             (snd (skipByte s4 CHR '','')))))))"
| "readArrayLoop P arr s =
     (if IsEOF s then Inl ErrUnexpectedEOF
      else
        (case ReadValue P s of
           Inl e \<Rightarrow> Inl e
         | Inr (val, s1) \<Rightarrow>
             (let s2 = skipWhitespace s1 in
              if IsEOF s2 then Inl ErrUnexpectedEOF
              else if fst (skipByte s2 CHR '']'')
              then Inr (GSlice (arr @ [val]), snd (skipByte s2 CHR '']''))
              else if \<not> fst (skipByte s2 CHR '','') then Inl ErrUnexpectedToken
              else readArrayLoop P (arr @ [val])
                     (skipWhitespace (snd (skipByte s2 CHR '',''))))))"
  by pat_completeness auto

lemma ReadValue_advanced_partial:
  "ReadValue_readObjectLoop_readArrayLoop_dom (Inl (P, s0))
     \<Longrightarrow> ReadValue P s0 = Inr (v, s') \<Longrightarrow> advanced s0 s'"
  "ReadValue_readObjectLoop_readArrayLoop_dom (Inr (Inl (P, m, s0)))
     \<Longrightarrow> readObjectLoop P m s0 = Inr (v, s') \<Longrightarrow> advanced s0 s'"
  "ReadValue_readObjectLoop_readArrayLoop_dom (Inr (Inr (P, arr, s0)))
     \<Longrightarrow> readArrayLoop P arr s0 = Inr (v, s') \<Longrightarrow> advanced s0 s'"
proof (induction P s0 and P m s0 and P arr s0 arbitrary: v s' and v s' and v s'
    rule: ReadValue_readObjectLoop_readArrayLoop.pinduct)
  case (1 P s0)
  define s where "s = skipWhitespace s0"
  define s1 where "s1 = skipWhitespace (s\<lparr>cur := cur s + 1\<rparr>)"
  have a0: "advanced s0 s"
    unfolding s_def by (rule advanced_skipWhitespace)
  have "advanced (s\<lparr>cur := cur s + 1\<rparr>) s1"
    unfolding s1_def by (rule advanced_skipWhitespace)
  then have a1: "advanced s s1"
    by (simp add: advanced_def)
  have eq: "ReadValue P s0 = Inr (v, s')"
    by fact
  consider (brace) "s' = snd (skipByte s1 CHR ''}'')"
    | (obj) "\<not> IsEOF s" "peek s = CHR ''{''" "\<not> fst (skipByte s1 CHR ''}'')"
        "readObjectLoop P [] s1 = Inr (v, s')"
    | (bracket) "s' = snd (skipByte s1 CHR '']'')"
    | (arr) "\<not> IsEOF s" "peek s \<noteq> CHR ''{''" "peek s = CHR ''[''"
        "\<not> fst (skipByte s1 CHR '']'')" "readArrayLoop P [] s1 = Inr (v, s')"
    | (str) str where "parseString s = Inr (str, s')"
    | (seq) seq where "s' = snd (skipSequence s seq)"
    | (num) x where "parseNumber P s = Inr (x, s')"
    using eq unfolding ReadValue.psimps [OF "1.hyps"] Let_def s_def [symmetric] s1_def [symmetric]
    by (auto split: if_splits sum.splits prod.splits)
  then show ?case
  proof cases
    case brace
    then show ?thesis
      using a0 a1 advanced_skipByte [of s1 "CHR ''}''"] by (auto simp: advanced_def)
  next
    case obj
    then have "advanced s1 s'"
      using "1.IH"(1) [of s s1 v s'] by (simp add: s_def s1_def)
    then show ?thesis
      using a0 a1 by (auto simp: advanced_def)
  next
    case bracket
    then show ?thesis
      using a0 a1 advanced_skipByte [of s1 "CHR '']''"] by (auto simp: advanced_def)
  next
    case arr
    then have "advanced s1 s'"
      using "1.IH"(2) [of s s1 v s'] by (simp add: s_def s1_def)
    then show ?thesis
      using a0 a1 by (auto simp: advanced_def)
  next
    case str
    then show ?thesis
      using a0 parseString_advanced [of s str s'] by (auto simp: advanced_def)
  next
    case seq
    then show ?thesis
      using a0 advanced_skipSequence [of s seq] by (auto simp: advanced_def)
  next
    case num
    then show ?thesis
      using a0 parseNumber_advanced [of P s x s'] by (auto simp: advanced_def)
  qed
next
  case (2 P m s0)
  define s where "s = skipWhitespace s0"
  have eq: "readObjectLoop P m s0 = Inr (v, s')"
    by fact
  obtain key sk where ps: "parseString s = Inr (key, sk)" and ne: "\<not> IsEOF s"
    using eq unfolding readObjectLoop.psimps [OF "2.hyps"] Let_def s_def [symmetric]
    by (auto split: if_splits sum.splits prod.splits)
  define s2 where "s2 = skipWhitespace sk"
  define sc where "sc = snd (skipByte s2 CHR '':'')"
  have c: "\<not> IsEOF s2" "fst (skipByte s2 CHR '':'')"
    using eq ps ne unfolding readObjectLoop.psimps [OF "2.hyps"] Let_def s_def [symmetric]
    by (auto simp: s2_def split: if_splits)
  obtain val s3 where rv: "ReadValue P sc = Inr (val, s3)"
    using eq ps ne c unfolding readObjectLoop.psimps [OF "2.hyps"] Let_def s_def [symmetric]
    by (auto simp: s2_def sc_def split: if_splits sum.splits prod.splits)
  define s4 where "s4 = skipWhitespace s3"
  have a: "advanced s0 s" "advanced sk s2" "advanced s2 sc" "advanced s3 s4"
    unfolding s_def s2_def sc_def s4_def
    by (simp_all add: advanced_skipWhitespace advanced_skipByte)
  have ak: "advanced s sk"
    using parseString_advanced [OF ps] by simp
  have a3: "advanced sc s3"
    using "2.IH"(1) [of s "(key, sk)" key sk s2 val s3] ps ne c rv
    by (simp add: s_def s2_def sc_def)
  have a04: "advanced s0 s4"
    using a ak a3 by (auto simp: advanced_def)
  consider (close) "s' = snd (skipByte s4 CHR ''}'')"
    | (more) "\<not> IsEOF s4" "\<not> fst (skipByte s4 CHR ''}'')" "fst (skipByte s4 CHR '','')"
        "readObjectLoop P (AList.update key val m) (snd (skipByte s4 CHR '','')) = Inr (v, s')"
    using eq ps ne c rv unfolding readObjectLoop.psimps [OF "2.hyps"] Let_def s_def [symmetric]
    by (auto simp: s2_def sc_def s4_def split: if_splits)
  then show ?case
  proof cases
    case close
    then show ?thesis
      using a04 advanced_skipByte [of s4 "CHR ''}''"] by (auto simp: advanced_def)
  next
    case more
    then have "advanced (snd (skipByte s4 CHR '','')) s'"
      using "2.IH"(2) [of s "(key, sk)" key sk s2 "(val, s3)" val s3 s4 v s'] ps ne c rv
      by (simp add: s_def s2_def sc_def s4_def)
    then show ?thesis
      using a04 advanced_skipByte [of s4 "CHR '',''"] by (auto simp: advanced_def)
  qed
next
  case (3 P arr s)
  have eq: "readArrayLoop P arr s = Inr (v, s')"
    by fact
  obtain val s1 where rv: "ReadValue P s = Inr (val, s1)" and ne: "\<not> IsEOF s"
    using eq unfolding readArrayLoop.psimps [OF "3.hyps"] Let_def
    by (auto split: if_splits sum.splits prod.splits)
  define s2 where "s2 = skipWhitespace s1"
  have a1: "advanced s s1"
    using "3.IH"(1) [of val s1] ne rv by simp
  have a2: "advanced s1 s2"
    unfolding s2_def by (rule advanced_skipWhitespace)
  consider (close) "s' = snd (skipByte s2 CHR '']'')"
    | (more) "\<not> IsEOF s2" "\<not> fst (skipByte s2 CHR '']'')" "fst (skipByte s2 CHR '','')"
        "readArrayLoop P (arr @ [val]) (skipWhitespace (snd (skipByte s2 CHR '',''))) = Inr (v, s')"
    using eq rv ne unfolding readArrayLoop.psimps [OF "3.hyps"] Let_def
    by (auto simp: s2_def split: if_splits)
  then show ?case
  proof cases
    case close
    then show ?thesis
      using a1 a2 advanced_skipByte [of s2 "CHR '']''"] by (auto simp: advanced_def)
  next
    case more
    then have "advanced (skipWhitespace (snd (skipByte s2 CHR '',''))) s'"
      using "3.IH"(2) [of "(val, s1)" val s1 s2 v s'] ne rv by (simp add: s2_def)
    then show ?thesis
      using a1 a2 advanced_skipByte [of s2 "CHR '',''"]
        advanced_skipWhitespace [of "snd (skipByte s2 CHR '','')"]
      by (auto simp: advanced_def)
  qed
qed

termination ReadValue
proof (relation "measure (\<lambda>x. case x of
      Inl (P, s) \<Rightarrow> 2 * (length (data s) - cur s)
    | Inr (Inl (P, m, s)) \<Rightarrow> 2 * (length (data s) - cur s) + 1
    | Inr (Inr (P, arr, s)) \<Rightarrow> 2 * (length (data s) - cur s) + 1)", goal_cases)
  case 1
  show ?case by simp
next
  case (2 P s0 x xa)
  then have "advanced s0 x" "advanced (x\<lparr>cur := cur x + 1\<rparr>) xa" "cur x < length (data x)"
    by (simp_all add: advanced_skipWhitespace IsEOF_def)
  then show ?case
    by (auto simp: advanced_def)
next
  case (3 P s0 x xa)
  then have "advanced s0 x" "advanced (x\<lparr>cur := cur x + 1\<rparr>) xa" "cur x < length (data x)"
    by (simp_all add: advanced_skipWhitespace IsEOF_def)
  then show ?case
    by (auto simp: advanced_def)
next
  case (4 P m s0 x b xa y xb)
  then have "advanced s0 x" "advanced x y \<and> cur x < cur y" "advanced y xb"
    "advanced xb (snd (skipByte xb CHR '':''))" "cur xb < length (data xb)"
    using parseString_advanced [of x xa y]
    by (simp_all add: advanced_skipWhitespace advanced_skipByte IsEOF_def)
  then show ?case
    by (auto simp: advanced_def)
next
  case (5 P m s0 x b xa y xb ba xc ya xd)
  then have "advanced s0 x" "advanced x y \<and> cur x < cur y" "advanced y xb"
    "advanced xb (snd (skipByte xb CHR '':''))" "advanced (snd (skipByte xb CHR '':'')) ya"
    "advanced ya xd" "cur (snd (skipByte xd CHR '','')) = cur xd + 1" "cur xd < length (data xd)"
    "advanced xd (snd (skipByte xd CHR '',''))"
    using parseString_advanced [of x xa y]
      ReadValue_advanced_partial(1) [of P "snd (skipByte xb CHR '':'')" xc ya]
    by (simp_all add: advanced_skipWhitespace advanced_skipByte IsEOF_def skipByte_True_cur)
  then show ?case
    by (auto simp: advanced_def)
next
  case (6 P arr s)
  then show ?case
    by (simp add: IsEOF_def)
next
  case (7 P arr s b x y xa)
  then have "advanced s y" "advanced y xa" "cur (snd (skipByte xa CHR '','')) = cur xa + 1"
    "cur xa < length (data xa)" "advanced xa (snd (skipByte xa CHR '',''))"
    "advanced (snd (skipByte xa CHR '','')) (skipWhitespace (snd (skipByte xa CHR '','')))"
    using ReadValue_advanced_partial(1) [of P s x y]
    by (simp_all add: advanced_skipWhitespace advanced_skipByte IsEOF_def skipByte_True_cur)
  then show ?case
    by (auto simp: advanced_def)
qed

declare ReadValue.simps [simp del] readObjectLoop.simps [simp del] readArrayLoop.simps [simp del]

subsection \<open>NewScanner\<close>

text \<open>
  The options of \<open>NewScanner\<close> are values of any type: a \<open>ScannerFlag\<close> is or-ed into
  the flags, any other value makes it panic (\<open>None\<close>).
\<close>

datatype scanner_option = Flag int | OtherScannerOption

fun collectFlags :: "int \<Rightarrow> scanner_option list \<Rightarrow> int option" where
  "collectFlags fl [] = Some fl"
| "collectFlags fl (Flag v # opts) = collectFlags (fl OR v) opts"
| "collectFlags fl (OtherScannerOption # opts) = None"

definition NewScanner :: "string \<Rightarrow> scanner_option list \<Rightarrow> scanner option" where
  "NewScanner bytes opts =
     (case collectFlags 0 opts of
        None \<Rightarrow> None
      | Some fl \<Rightarrow>
          (let s = \<lparr>data = bytes, cur = 0, flags = fl\<rparr>;
               s1 = (if flags s AND ScannerFlagDoNotSkipBOM = 0 then snd (SkipBOM s) else s);
               s2 = (if flags s1 AND ScannerFlagDoNotSkipInitialWhitespace = 0
                     then skipWhitespace s1 else s1)
           in Some s2))"

subsection \<open>String escaping as the specification words it\<close>

text \<open>
  The escape of one byte: the two-character escapes of backspace, form feed, newline,
  carriage return, tab, backslash and double quote; \<open>\u00XX\<close> with lowercase hex
  digits for every other byte below \<open>0x20\<close>; every other byte, the forward slash among
  them, unchanged. \<open>escape\<close> is the left-to-right pass over a string.
\<close>

definition hex_lower :: "nat \<Rightarrow> char" where
  "hex_lower n = (if n < 10 then char_of (byte CHR ''0'' + n) else char_of (byte CHR ''a'' + (n - 10)))"

definition escape_byte :: "char \<Rightarrow> string" where
  "escape_byte c =
     (if c = CHR 0x08 then [bslash, CHR ''b'']
      else if c = CHR 0x0C then [bslash, CHR ''f'']
      else if c = CHR 0x0A then [bslash, CHR ''n'']
      else if c = CHR 0x0D then [bslash, CHR ''r'']
      else if c = CHR 0x09 then [bslash, CHR ''t'']
      else if c = bslash then [bslash, bslash]
      else if c = dquote then [bslash, dquote]
      else if byte c < 0x20 then
        [bslash] @ ''u00'' @ [hex_lower (byte c div 16), hex_lower (byte c mod 16)]
      else [c])"

definition escape :: "string \<Rightarrow> string" where
  "escape s = concat (map escape_byte s)"

text \<open>A decorator on a \<open>strings.Builder\<close> that holds \<open>buf\<close>, with no error recorded.\<close>

definition on_builder :: "string \<Rightarrow> int \<Rightarrow> string decorator" where
  "on_builder buf p = \<lparr>out = Writer buf Builder_Write, floatPrecision = p, err = None\<rparr>"

text \<open>A byte that the escaping leaves as it is.\<close>

definition plain_byte :: "char \<Rightarrow> bool" where
  "plain_byte c = (escape_byte c = [c])"

section \<open>JSON text and JSON values\<close>

text \<open>
  The text of a value built from the built-in types, written as a function of the
  value: \<open>null\<close>, \<open>true\<close>, \<open>false\<close>, decimal integers, the float as \<open>FormatFloat\<close>
  renders it, strings (and byte sequences) between quotes with the escapes, arrays as
  \<open>[e1,e2,...]\<close>, and objects as \<open>{"k1":v1,"k2":v2,...}\<close> with the members in the order
  of the sorted keys; no whitespace anywhere.
\<close>

fun comma_separated :: "string list \<Rightarrow> string" where
  "comma_separated [] = []"
| "comma_separated (x # xs) = x @ concat (map (\<lambda>y. '','' @ y) xs)"

definition quoted :: "string \<Rightarrow> string" where
  "quoted s = [dquote] @ escape s @ [dquote]"

lemma size_snd_member:
  "kv \<in> set kvs \<Longrightarrow> size (snd kv) < Suc (size_list (size_prod (\<lambda>x. 0) size) kvs)"
  by (induction kvs) (auto simp: size_prod_snd)

function json_text :: "format_float \<Rightarrow> int \<Rightarrow> gvalue \<Rightarrow> string" where
  "json_text F p GNil = ''null''"
| "json_text F p (GBool b) = (if b then ''true'' else ''false'')"
| "json_text F p (GInt i) = FormatInt i"
| "json_text F p (GUint n) = FormatUint n"
| "json_text F p (GFloat x) = F x p"
| "json_text F p (GString s) = quoted s"
| "json_text F p (GBytes s) = quoted s"
| "json_text F p (GSlice es) =
     (if es = [] then ''[]'' else ''['' @ comma_separated (map (json_text F p) es) @ '']'')"
| "json_text F p (GMap kvs) =
     (if kvs = [] then ''{}''
      else ''{'' @ comma_separated
                   (map (\<lambda>kv. quoted (fst kv) @ '':'' @ json_text F p (snd kv)) (sort_key fst kvs))
           @ ''}'')"
| "json_text F p (GPtr u) = []"
| "json_text F p (GIface u) = []"
| "json_text F p (GArrayFunc es) = []"
| "json_text F p (GArrayFuncErr es e) = []"
| "json_text F p (GObjectFunc ms) = []"
| "json_text F p (GObjectFuncErr ms e) = []"
| "json_text F p (GNamed n vm pm u) = []"
| "json_text F p (GOther n) = []"
| "json_text F p (GByteArray s) = []"
  by pat_completeness auto
termination
  by (relation "measure (\<lambda>(F, p, v). size v)") (auto simp: size_snd_member less_Suc_eq_le size_list_estimation')

text \<open>
  The values whose text \<open>json_text\<close> gives: built from the nil interface, booleans,
  integers, finite floats, strings, byte sequences, slices and string-keyed maps.
\<close>

fun plain :: "gvalue \<Rightarrow> bool" where
  "plain GNil = True"
| "plain (GBool b) = True"
| "plain (GInt i) = True"
| "plain (GUint n) = True"
| "plain (GFloat x) = (\<not> IsInf x \<and> \<not> IsNaN x)"
| "plain (GString s) = True"
| "plain (GBytes s) = True"
| "plain (GSlice es) = list_all plain es"
| "plain (GMap kvs) = list_all (\<lambda>kv. plain (snd kv)) kvs"
| "plain v = False"

subsection \<open>JSON values and their equivalence\<close>

text \<open>
  The values the decoder produces and the round trip is about: built from the nil
  interface, booleans, floats, strings, slices and string-keyed maps (with distinct
  keys, as a Go map has). A float has to be finite, and the text \<open>FormatFloat\<close> gives
  for it at precision \<open>p\<close> has to be a number literal that \<open>ParseFloat\<close> maps back to
  the same float.
\<close>

fun json_value :: "format_float \<Rightarrow> parse_float \<Rightarrow> int \<Rightarrow> gvalue \<Rightarrow> bool" where
  "json_value F P p GNil = True"
| "json_value F P p (GBool b) = True"
| "json_value F P p (GFloat x) =
     (\<not> IsInf x \<and> \<not> IsNaN x \<and> json_number (F x p) \<and> P (F x p) = (x, None))"
| "json_value F P p (GString s) = True"
| "json_value F P p (GSlice es) = list_all (json_value F P p) es"
| "json_value F P p (GMap kvs) =
     (distinct (map fst kvs) \<and> list_all (\<lambda>kv. json_value F P p (snd kv)) kvs)"
| "json_value F P p v = False"

text \<open>
  Structural equivalence: the same scalar (floats by their bits), slices of equivalent
  elements in the same order, maps with the same keys and equivalent values under each
  key, whatever the order of the entries.
\<close>

inductive json_equiv :: "gvalue \<Rightarrow> gvalue \<Rightarrow> bool" where
  equiv_nil: "json_equiv GNil GNil"
| equiv_bool: "json_equiv (GBool b) (GBool b)"
| equiv_float: "json_equiv (GFloat x) (GFloat x)"
| equiv_string: "json_equiv (GString s) (GString s)"
| equiv_slice: "list_all2 json_equiv xs ys \<Longrightarrow> json_equiv (GSlice xs) (GSlice ys)"
| equiv_map:
    "fst ` set m1 = fst ` set m2
     \<Longrightarrow> (\<And>k v1 v2. map_of m1 k = Some v1 \<Longrightarrow> map_of m2 k = Some v2 \<Longrightarrow> json_equiv v1 v2)
     \<Longrightarrow> json_equiv (GMap m1) (GMap m2)"

text \<open>
  The value the decoder builds from the text of a JSON value: the same value with the
  entries of every map in the order of the keys.
\<close>

function canon :: "gvalue \<Rightarrow> gvalue" where
  "canon (GSlice es) = GSlice (map canon es)"
| "canon (GMap kvs) = GMap (map (\<lambda>kv. (fst kv, canon (snd kv))) (sort_key fst kvs))"
| "canon GNil = GNil"
| "canon (GBool b) = GBool b"
| "canon (GInt i) = GInt i"
| "canon (GUint n) = GUint n"
| "canon (GFloat x) = GFloat x"
| "canon (GString s) = GString s"
| "canon (GBytes s) = GBytes s"
| "canon (GByteArray s) = GByteArray s"
| "canon (GPtr u) = GPtr u"
| "canon (GIface u) = GIface u"
| "canon (GArrayFunc es) = GArrayFunc es"
| "canon (GArrayFuncErr es e) = GArrayFuncErr es e"
| "canon (GObjectFunc ms) = GObjectFunc ms"
| "canon (GObjectFuncErr ms e) = GObjectFuncErr ms e"
| "canon (GNamed n vm pm u) = GNamed n vm pm u"
| "canon (GOther n) = GOther n"
  by pat_completeness auto
termination
  by (relation "measure size") (auto simp: size_snd_member less_Suc_eq_le size_list_estimation')



text \<open>The map that the assignments \<open>m[key] = val\<close> build, member after member.\<close>

definition store_all :: "(string \<times> gvalue) list \<Rightarrow> (string \<times> gvalue) list \<Rightarrow> (string \<times> gvalue) list" where
  "store_all m ms = foldl (\<lambda>m kv. AList.update (fst kv) (snd kv) m) m ms"

subsection \<open>Output that does not depend on what the builder holds\<close>

text \<open>
  \<open>builder d\<close>: the sink of \<open>d\<close> is a \<open>strings.Builder\<close>. \<open>shift pre d\<close> is \<open>d\<close> with
  \<open>pre\<close> put in front of what its builder holds.
\<close>

definition builder :: "string decorator \<Rightarrow> bool" where
  "builder d = (write_method (out d) = Builder_Write)"

definition shift :: "string \<Rightarrow> string decorator \<Rightarrow> string decorator" where
  "shift pre d = d\<lparr>out := Writer (pre @ sink (out d)) (write_method (out d))\<rparr>"

text \<open>
  \<open>frames f d\<close>: on a builder, the step \<open>f\<close> leaves a builder and the precision, and what
  it appends and the error it records do not depend on what the builder holds already.
  \<open>frames_count\<close> is the same for a step that returns a counter with the decorator.
\<close>

definition frames :: "(string decorator \<Rightarrow> string decorator) \<Rightarrow> string decorator \<Rightarrow> bool" where
  "frames f d =
     (builder d \<longrightarrow> builder (f d) \<and> floatPrecision (f d) = floatPrecision d
        \<and> (\<forall>pre. f (shift pre d) = shift pre (f d)))"

definition frames_count :: "(string decorator \<Rightarrow> string decorator \<times> nat) \<Rightarrow> string decorator \<Rightarrow> bool" where
  "frames_count f d =
     (builder d \<longrightarrow> builder (fst (f d)) \<and> floatPrecision (fst (f d)) = floatPrecision d
        \<and> (\<forall>pre. f (shift pre d) = (shift pre (fst (f d)), snd (f d))))"

text \<open>
  What \<open>marshalValue\<close> writes for a value into an empty builder, and the error it leaves.
\<close>

definition value_text :: "format_float \<Rightarrow> int \<Rightarrow> gvalue \<Rightarrow> string" where
  "value_text F p v = sink (out (marshalValue F (on_builder [] p) v))"

definition value_error :: "format_float \<Rightarrow> int \<Rightarrow> gvalue \<Rightarrow> error option" where
  "value_error F p v = err (marshalValue F (on_builder [] p) v)"

subsection \<open>Emission operations\<close>

text \<open>
  The operations of a \<open>decorator\<close> that emit output or record an error, as values, so
  that statements can range over sequences of them. \<open>Element n v\<close> and \<open>Member n k v\<close>
  are the methods of an \<open>arrayWriter\<close> and an \<open>objectWriter\<close> on this decorator whose
  counter is \<open>n\<close>.
\<close>

datatype emission =
    Put string
  | HandleError error
  | MarshalNull
  | MarshalBool bool
  | MarshalFloat64 float64
  | MarshalString string
  | ScrambleStr string
  | ObjectField string bool
  | ObjectEnd bool
  | MarshalObj "(string \<times> gvalue) list" "error option"
  | ArrayElement bool
  | ArrayEnd bool
  | MarshalArr "gvalue list" "error option"
  | MarshalValue gvalue
  | Element nat gvalue
  | Member nat string gvalue

fun emit :: "format_float \<Rightarrow> 'w decorator \<Rightarrow> emission \<Rightarrow> 'w decorator" where
  "emit F d (Put s) = put d s"
| "emit F d (HandleError e) = handleError d e"
| "emit F d MarshalNull = marshalNull d"
| "emit F d (MarshalBool b) = marshalBool d b"
| "emit F d (MarshalFloat64 x) = marshalFloat64 F d x"
| "emit F d (MarshalString s) = marshalString d s"
| "emit F d (ScrambleStr s) = scrambleStr d s"
| "emit F d (ObjectField name first) = objectField d name first"
| "emit F d (ObjectEnd wasEmpty) = objectEnd d wasEmpty"
| "emit F d (MarshalObj ms e) = marshalObj F d ms e"
| "emit F d (ArrayElement first) = arrayElement d first"
| "emit F d (ArrayEnd wasEmpty) = arrayEnd d wasEmpty"
| "emit F d (MarshalArr es e) = marshalArr F d es e"
| "emit F d (MarshalValue v) = marshalValue F d v"
| "emit F d (Element n v) = marshalValue F (arrayElement d (n = 0)) v"
| "emit F d (Member n k v) = marshalValue F (objectField d k (n = 0)) v"

definition emit_all :: "format_float \<Rightarrow> 'w decorator \<Rightarrow> emission list \<Rightarrow> 'w decorator" where
  "emit_all F d ops = foldl (emit F) d ops"

text \<open>The sink of the tests whose \<open>Write\<close> always fails with the same error.\<close>

definition errorWriter :: "error \<Rightarrow> unit Writer" where
  "errorWriter e = Writer () (\<lambda>st p. (st, Some e))"

subsection \<open>Notions used in the statements about the scanner\<close>

text \<open>
  \<open>remaining\<close> is the input from the cursor on; \<open>no_digit_next\<close> says that a digit
  run ends where it is expected to; \<open>float_outcome\<close> is the outcome \<open>parseNumber\<close>
  makes of what \<open>ParseFloat\<close> returns.
\<close>

definition remaining :: "scanner \<Rightarrow> string" where
  "remaining s = drop (cur s) (data s)"

definition no_digit_next :: "string \<Rightarrow> bool" where
  "no_digit_next r = (r = [] \<or> \<not> is_digit (hd r))"

definition float_outcome :: "float64 \<times> strconv_err option \<Rightarrow> scanner \<Rightarrow> error + (float64 \<times> scanner)" where
  "float_outcome r s =
     (case r of
        (val, None) \<Rightarrow> Inr (val, s)
      | (val, Some ErrRange) \<Rightarrow> Inl ErrNumericValueOutOfRange
      | (val, Some ErrSyntax) \<Rightarrow> Inl ErrInvalidNumber)"

text \<open>
  \<open>reads_as P t w\<close>: wherever the text \<open>t\<close> stands at the cursor, followed by nothing
  that continues a number, \<open>ReadValue\<close> returns \<open>w\<close> and leaves the cursor behind \<open>t\<close>.
\<close>

definition reads_as :: "parse_float \<Rightarrow> string \<Rightarrow> gvalue \<Rightarrow> bool" where
  "reads_as P t w =
     (t \<noteq> [] \<and> \<not> is_ws (hd t) \<and>
      (\<forall>s rest. remaining s = t @ rest \<longrightarrow> number_end rest
         \<longrightarrow> ReadValue P s = Inr (w, s\<lparr>cur := cur s + length t\<rparr>)))"

section \<open>Properties of the scanner\<close>

text \<open>The loop stops at end of input exactly when everything it was given is whitespace.\<close>

lemma skipWhitespace_eof_iff:
  "IsEOF (skipWhitespace s) \<longleftrightarrow> (\<forall>b \<in> set (drop (cur s) (data s)). is_ws b)"
proof (induction s rule: skipWhitespace.induct)
  case (1 s)
  show ?case
  proof (cases "cur s < length (data s)")
    case False
    then show ?thesis
      by (subst skipWhitespace.simps) (simp add: IsEOF_def)
  next
    case lt: True
    then have dr: "drop (cur s) (data s) = data s ! cur s # drop (Suc (cur s)) (data s)"
      by (simp add: Cons_nth_drop_Suc)
    show ?thesis
    proof (cases "is_ws (data s ! cur s)")
      case True
      then have "IsEOF (skipWhitespace (s\<lparr>cur := cur s + 1\<rparr>))
          \<longleftrightarrow> (\<forall>b \<in> set (drop (cur s + 1) (data s)). is_ws b)"
        using "1.IH" lt by (simp add: is_ws_def)
      moreover have "skipWhitespace s = skipWhitespace (s\<lparr>cur := cur s + 1\<rparr>)"
        using lt True by (subst skipWhitespace.simps) (simp add: is_ws_def Let_def)
      ultimately show ?thesis
        using True dr by simp
    next
      case False
      then have "skipWhitespace s = s"
        using lt by (subst skipWhitespace.simps) (simp add: is_ws_def Let_def)
      then show ?thesis
        using False lt dr by (simp add: IsEOF_def)
    qed
  qed
qed

text \<open>
  C7. \<open>Finalize\<close> returns no error if and only if every byte from the cursor to the end
  of the input is one of space, tab, CR, LF; in every other case the error it returns is
  the unexpected-token error. This holds in every scanner state.
\<close>

theorem Finalize_iff_trailing_whitespace:
  "(fst (Finalize s) = None \<longleftrightarrow> (\<forall>b \<in> set (drop (cur s) (data s)). is_ws b))
   \<and> (fst (Finalize s) \<noteq> None \<longrightarrow> fst (Finalize s) = Some ErrUnexpectedToken)"
  using skipWhitespace_eof_iff [of s] by (simp add: Finalize_def Let_def)

theorem Finalize_iff_trailing_whitespace_witness:
  "fst (Finalize \<lparr>data = ''[1] '' @ [CHR 0x0A], cur = 3, flags = 0\<rparr>) = None
   \<and> list_all is_ws (drop 3 (''[1] '' @ [CHR 0x0A]))
   \<and> fst (Finalize \<lparr>data = ''[1] x'', cur = 3, flags = 0\<rparr>) = Some ErrUnexpectedToken
   \<and> \<not> list_all is_ws (drop 3 ''[1] x'')"
  using Finalize_iff_trailing_whitespace [of "\<lparr>data = ''[1] '' @ [CHR 0x0A], cur = 3, flags = 0\<rparr>"]
    Finalize_iff_trailing_whitespace [of "\<lparr>data = ''[1] x'', cur = 3, flags = 0\<rparr>"]
  by (simp add: is_ws_def)

subsection \<open>Numbers\<close>

lemma remaining_Nil: "remaining s = [] \<longleftrightarrow> cur s \<ge> length (data s)"
  by (simp add: remaining_def)

lemma remaining_Cons:
  assumes "remaining s = c # r"
  shows "cur s < length (data s)" and "data s ! cur s = c"
    and "remaining (s\<lparr>cur := cur s + 1\<rparr>) = r"
proof -
  show lt: "cur s < length (data s)"
    using assms by (auto simp: remaining_def intro: ccontr)
  then have "drop (cur s) (data s) = data s ! cur s # drop (Suc (cur s)) (data s)"
    by (simp add: Cons_nth_drop_Suc)
  then show "data s ! cur s = c" and "remaining (s\<lparr>cur := cur s + 1\<rparr>) = r"
    using assms by (simp_all add: remaining_def)
qed

lemma remaining_append:
  assumes "remaining s = a @ b"
  shows "remaining (s\<lparr>cur := cur s + length a\<rparr>) = b"
proof -
  have "drop (length a) (drop (cur s) (data s)) = b"
    using assms by (simp add: remaining_def)
  then show ?thesis by (simp add: remaining_def add.commute)
qed

lemma skipByte_Nil: "remaining s = [] \<Longrightarrow> skipByte s b = (False, s)"
  by (simp add: skipByte_def remaining_Nil)

lemma skipByte_Cons:
  "remaining s = c # r \<Longrightarrow>
   skipByte s b = (if c = b then (True, s\<lparr>cur := cur s + 1\<rparr>) else (False, s))"
  using remaining_Cons [of s c r] by (simp add: skipByte_def)

lemma isDecimalDigit_remaining:
  "isDecimalDigit s \<longleftrightarrow> (remaining s \<noteq> [] \<and> is_digit (hd (remaining s)))"
proof (cases "remaining s")
  case Nil
  then show ?thesis by (simp add: isDecimalDigit_def remaining_Nil)
next
  case (Cons c r)
  then show ?thesis
    using remaining_Cons [OF Cons] by (simp add: isDecimalDigit_def is_digit_def)
qed

lemma skipDigitsLoop_digits:
  assumes "remaining s = ds @ r" and "list_all is_digit ds" and "no_digit_next r"
  shows "skipDigitsLoop s = s\<lparr>cur := cur s + length ds\<rparr>"
  using assms
proof (induction ds arbitrary: s)
  case Nil
  then have "\<not> isDecimalDigit s"
    by (auto simp: isDecimalDigit_remaining no_digit_next_def)
  then show ?case by (subst skipDigitsLoop.simps) simp
next
  case (Cons d ds)
  have dig: "isDecimalDigit s"
    using Cons.prems by (simp add: isDecimalDigit_remaining)
  have "remaining (s\<lparr>cur := cur s + 1\<rparr>) = ds @ r"
    using remaining_Cons(3) [of s d "ds @ r"] Cons.prems(1) by simp
  then have "skipDigitsLoop (s\<lparr>cur := cur s + 1\<rparr>) = s\<lparr>cur := cur s + 1 + length ds\<rparr>"
    using Cons.IH [of "s\<lparr>cur := cur s + 1\<rparr>"] Cons.prems by simp
  then show ?case
    using dig by (subst skipDigitsLoop.simps) simp
qed

lemma skipDecimalDigits_digits:
  assumes "remaining s = ds @ r" and "list_all is_digit ds" and "no_digit_next r"
  shows "skipDecimalDigits s = (ds \<noteq> [], s\<lparr>cur := cur s + length ds\<rparr>)"
  using skipDigitsLoop_digits [OF assms] by (simp add: skipDecimalDigits_def Let_def)

lemma no_digit_next_Cons [simp]: "no_digit_next (c # r) \<longleftrightarrow> \<not> is_digit c"
  by (simp add: no_digit_next_def)

lemma no_digit_next_Nil [simp]: "no_digit_next []"
  by (simp add: no_digit_next_def)

lemma is_digit_simps [simp]:
  "\<not> is_digit CHR ''.''" "\<not> is_digit CHR ''e''" "\<not> is_digit CHR ''E''"
  "\<not> is_digit CHR ''+''" "\<not> is_digit CHR ''-''" "is_digit CHR ''0''"
  by (simp_all add: is_digit_def byte_def)

lemma frac_part_cases:
  assumes "frac_part fp"
  obtains "fp = []" | ds where "fp = CHR ''.'' # ds" "ds \<noteq> []" "list_all is_digit ds"
  using assms unfolding frac_part_def by (cases fp) auto

lemma exp_part_cases:
  assumes "exp_part ep"
  obtains "ep = []"
  | m sg ds where "ep = m # sg @ ds" "m = CHR ''e'' \<or> m = CHR ''E''"
      "sg = [] \<or> sg = ''+'' \<or> sg = ''-''" "ds \<noteq> []" "list_all is_digit ds"
proof (cases ep)
  case Nil
  then show ?thesis using that by simp
next
  case (Cons m r)
  then have m: "m = CHR ''e'' \<or> m = CHR ''E''"
    and d: "exp_digits r \<noteq> []" "list_all is_digit (exp_digits r)"
    using assms by (simp_all add: exp_part_def)
  show ?thesis
  proof (cases "r \<noteq> [] \<and> (hd r = CHR ''+'' \<or> hd r = CHR ''-'')")
    case True
    then have "r = [hd r] @ exp_digits r"
      by (cases r) (auto simp: exp_digits_def)
    then have "ep = m # [hd r] @ exp_digits r"
      using Cons by simp
    then show ?thesis
      using that(2) [of m "[hd r]" "exp_digits r"] m d True by auto
  next
    case False
    then have "exp_digits r = r"
      by (auto simp: exp_digits_def)
    then show ?thesis
      using that(2) [of m "[]" r] m d Cons by auto
  qed
qed

lemma number_end_frac:
  assumes "frac_part fp" and "exp_part ep" and "number_end rest"
  shows "no_digit_next (fp @ ep @ rest)"
proof -
  have r: "no_digit_next rest"
    using assms(3) by (auto simp: number_end_def no_digit_next_def)
  have e: "no_digit_next (ep @ rest)"
    using assms(2) r by (cases rule: exp_part_cases) auto
  show ?thesis
    using assms(1) e by (cases rule: frac_part_cases) auto
qed

lemma number_end_exp:
  assumes "exp_part ep" and "number_end rest"
  shows "no_digit_next (ep @ rest)"
  using number_end_frac [of "[]" ep rest] assms by (simp add: frac_part_def)

text \<open>The integer part, after an optional minus sign.\<close>

lemma parseNumber_integer_ok:
  assumes "remaining s = sg @ ip @ r" and "sign_part sg" and "int_part ip"
    and "no_digit_next r"
  shows "parseNumber_integer s = Inr (s\<lparr>cur := cur s + length (sg @ ip)\<rparr>)"
proof -
  define s1 where "s1 = snd (skipByte s CHR ''-'')"
  have ne: "ip \<noteq> []" and hd_ip: "hd ip \<noteq> CHR ''-''"
    using assms(3) by (cases ip; auto simp: int_part_def)+
  have s1: "s1 = s\<lparr>cur := cur s + length sg\<rparr>"
  proof (cases "sg = []")
    case True
    then obtain c ip' where "remaining s = c # ip' @ r" "c \<noteq> CHR ''-''"
      using assms(1) ne hd_ip by (cases ip) auto
    then show ?thesis
      using True by (simp add: s1_def skipByte_Cons)
  next
    case False
    then have "remaining s = CHR ''-'' # ip @ r" "length sg = 1"
      using assms(1,2) by (auto simp: sign_part_def)
    then show ?thesis
      by (simp add: s1_def skipByte_Cons)
  qed
  have r1: "remaining s1 = ip @ r"
    using remaining_append [of s sg "ip @ r"] assms(1) s1 by simp
  show ?thesis
  proof (cases "ip = ''0''")
    case True
    then have sk: "skipByte s1 CHR ''0'' = (True, s1\<lparr>cur := cur s1 + 1\<rparr>)"
      using r1 by (simp add: skipByte_Cons)
    have "remaining (s1\<lparr>cur := cur s1 + 1\<rparr>) = r"
      using remaining_Cons(3) [of s1 "CHR ''0''" r] r1 True by simp
    then have "\<not> isDecimalDigit (s1\<lparr>cur := cur s1 + 1\<rparr>)"
      using assms(4) by (auto simp: isDecimalDigit_remaining no_digit_next_def)
    then show ?thesis
      using sk True s1 unfolding parseNumber_integer_def s1_def [symmetric] Let_def
      by simp
  next
    case False
    then obtain d ds where ip: "ip = d # ds" and d0: "d \<noteq> CHR ''0''"
      and dig: "is_digit d" "list_all is_digit ds"
      using assms(3) by (cases ip) (auto simp: int_part_def)
    have rc: "remaining s1 = d # ds @ r"
      using r1 ip by simp
    have sk: "skipByte s1 CHR ''0'' = (False, s1)"
      using rc d0 by (simp add: skipByte_Cons)
    have rng: "cur s1 < length (data s1)" "data s1 ! cur s1 = d"
      using remaining_Cons [OF rc] by simp_all
    have "byte d \<noteq> byte CHR ''0''"
      using d0 unfolding byte_def by (simp only: of_char_eq_iff not_False_eq_True)
    then have d19: "\<not> byte d < byte CHR ''1''" "\<not> byte d > byte CHR ''9''"
      using dig(1) by (auto simp: is_digit_def byte_def)
    have "remaining (s1\<lparr>cur := cur s1 + 1\<rparr>) = ds @ r"
      using remaining_Cons(3) [OF rc] .
    then have "skipDecimalDigits (s1\<lparr>cur := cur s1 + 1\<rparr>)
        = (ds \<noteq> [], s1\<lparr>cur := cur s1 + 1 + length ds\<rparr>)"
      using skipDecimalDigits_digits [of "s1\<lparr>cur := cur s1 + 1\<rparr>" ds r] dig(2) assms(4)
      by simp
    then show ?thesis
      using sk rng d19 s1 ip unfolding parseNumber_integer_def s1_def [symmetric] Let_def
      by simp
  qed
qed

lemma parseNumber_fraction_ok:
  assumes "remaining s = fp @ r" and "frac_part fp" and "no_digit_next r"
    and "r = [] \<or> hd r \<noteq> CHR ''.''"
  shows "parseNumber_fraction s = Inr (s\<lparr>cur := cur s + length fp\<rparr>)"
  using assms(2)
proof (cases rule: frac_part_cases)
  case 1
  then have "skipByte s CHR ''.'' = (False, s)"
    using assms(1,4) by (cases r) (simp_all add: skipByte_Nil skipByte_Cons)
  then show ?thesis
    using 1 by (simp add: parseNumber_fraction_def)
next
  case (2 ds)
  define s1 where "s1 = s\<lparr>cur := cur s + 1\<rparr>"
  define s2 where "s2 = s1\<lparr>cur := cur s1 + length ds\<rparr>"
  have rs: "remaining s = CHR ''.'' # ds @ r"
    using assms(1) 2 by simp
  then have sk: "skipByte s CHR ''.'' = (True, s1)"
    by (simp add: skipByte_Cons s1_def)
  have r1: "remaining s1 = ds @ r"
    using remaining_Cons(3) [OF rs] by (simp add: s1_def)
  then have sd: "skipDecimalDigits s1 = (True, s2)"
    using skipDecimalDigits_digits [of s1 ds r] 2 assms(3) by (simp add: s2_def)
  have "remaining s2 = r"
    using remaining_append [OF r1] by (simp add: s2_def)
  then have sk2: "skipByte s2 CHR ''.'' = (False, s2)"
    using assms(4) by (cases r) (simp_all add: skipByte_Nil skipByte_Cons)
  have "s2 = s\<lparr>cur := cur s + length fp\<rparr>"
    using 2 by (simp add: s2_def s1_def)
  then show ?thesis
    using sk sd sk2 by (simp add: parseNumber_fraction_def Let_def)
qed

lemma skipExpMarker_none:
  assumes "remaining s = r" and "r = [] \<or> (hd r \<noteq> CHR ''e'' \<and> hd r \<noteq> CHR ''E'')"
  shows "skipExpMarker s = (False, s)"
  using assms by (cases r) (simp_all add: skipExpMarker_def skipByte_Nil skipByte_Cons)

lemma skipExpMarker_some:
  assumes "remaining s = m # r" and "m = CHR ''e'' \<or> m = CHR ''E''"
  shows "skipExpMarker s = (True, s\<lparr>cur := cur s + 1\<rparr>)"
  using assms by (auto simp: skipExpMarker_def skipByte_Cons)

lemma parseNumber_exponent_ok:
  assumes "remaining s = ep @ r" and "exp_part ep" and "no_digit_next r"
    and "r = [] \<or> (hd r \<noteq> CHR ''e'' \<and> hd r \<noteq> CHR ''E'')"
  shows "parseNumber_exponent s = Inr (s\<lparr>cur := cur s + length ep\<rparr>)"
  using assms(2)
proof (cases rule: exp_part_cases)
  case 1
  then have "skipExpMarker s = (False, s)"
    using skipExpMarker_none [of s r] assms(1,4) by simp
  then show ?thesis
    using 1 by (simp add: parseNumber_exponent_def)
next
  case (2 m sg ds)
  define s1 where "s1 = s\<lparr>cur := cur s + 1\<rparr>"
  define s2 where "s2 = s1\<lparr>cur := cur s1 + length sg\<rparr>"
  define s3 where "s3 = s2\<lparr>cur := cur s2 + length ds\<rparr>"
  obtain d ds' where ds: "ds = d # ds'" and d: "is_digit d"
    using 2(4,5) by (cases ds) auto
  have dpm: "d \<noteq> CHR ''+''" "d \<noteq> CHR ''-''"
    using d by auto
  have rs: "remaining s = m # sg @ ds @ r"
    using assms(1) 2(1) by simp
  then have sk: "skipExpMarker s = (True, s1)"
    using skipExpMarker_some [OF rs 2(2)] by (simp add: s1_def)
  have r1: "remaining s1 = sg @ ds @ r"
    using remaining_Cons(3) [OF rs] by (simp add: s1_def)
  have sgn: "(if \<not> fst (skipByte s1 CHR ''+'')
              then snd (skipByte (snd (skipByte s1 CHR ''+'')) CHR ''-'')
              else snd (skipByte s1 CHR ''+'')) = s2"
    using 2(3) r1 ds dpm by (auto simp: skipByte_Cons s2_def)
  have r2: "remaining s2 = ds @ r"
    using remaining_append [OF r1] by (simp add: s2_def)
  then have sd: "skipDecimalDigits s2 = (True, s3)"
    using skipDecimalDigits_digits [of s2 ds r] 2(4,5) assms(3) by (simp add: s3_def)
  have "remaining s3 = r"
    using remaining_append [OF r2] by (simp add: s3_def)
  then have sk3: "skipExpMarker s3 = (False, s3)"
    using skipExpMarker_none [of s3 r] assms(4) by simp
  have "s3 = s\<lparr>cur := cur s + length ep\<rparr>"
    using 2(1) by (simp add: s3_def s2_def s1_def)
  then show ?thesis
    using sk sgn sd sk3 by (simp add: parseNumber_exponent_def Let_def)
qed


lemma parseNumber_parts:
  assumes "remaining s = sg @ ip @ fp @ ep @ rest"
    and "sign_part sg" and "int_part ip" and "frac_part fp" and "exp_part ep"
    and "number_end rest"
  shows "parseNumber PF s
    = float_outcome (PF (sg @ ip @ fp @ ep)) (s\<lparr>cur := cur s + length (sg @ ip @ fp @ ep)\<rparr>)"
proof -
  define s1 where "s1 = s\<lparr>cur := cur s + length (sg @ ip)\<rparr>"
  define s2 where "s2 = s1\<lparr>cur := cur s1 + length fp\<rparr>"
  define s3 where "s3 = s2\<lparr>cur := cur s2 + length ep\<rparr>"
  have nd: "no_digit_next rest" "rest = [] \<or> (hd rest \<noteq> CHR ''e'' \<and> hd rest \<noteq> CHR ''E'')"
    using assms(6) by (auto simp: number_end_def no_digit_next_def)
  have i: "parseNumber_integer s = Inr s1"
    using parseNumber_integer_ok [of s sg ip "fp @ ep @ rest"] assms(1-3)
      number_end_frac [OF assms(4-6)] by (simp add: s1_def)
  have r1: "remaining s1 = fp @ ep @ rest"
    using remaining_append [of s "sg @ ip" "fp @ ep @ rest"] assms(1) by (simp add: s1_def)
  have "ep @ rest = [] \<or> hd (ep @ rest) \<noteq> CHR ''.''"
    using assms(5)
  proof (cases rule: exp_part_cases)
    case 1
    then show ?thesis using assms(6) by (auto simp: number_end_def)
  next
    case (2 m sg' ds)
    then show ?thesis by auto
  qed
  then have f: "parseNumber_fraction s1 = Inr s2"
    using parseNumber_fraction_ok [of s1 fp "ep @ rest"] r1 assms(4)
      number_end_exp [OF assms(5,6)] by (simp add: s2_def)
  have r2: "remaining s2 = ep @ rest"
    using remaining_append [OF r1] by (simp add: s2_def)
  have e: "parseNumber_exponent s2 = Inr s3"
    using parseNumber_exponent_ok [of s2 ep rest] r2 assms(5) nd by (simp add: s3_def)
  have s3: "s3 = s\<lparr>cur := cur s + length (sg @ ip @ fp @ ep)\<rparr>"
    by (simp add: s3_def s2_def s1_def add.assoc)
  have "drop (cur s) (data s) = (sg @ ip @ fp @ ep) @ rest"
    using assms(1) by (simp add: remaining_def)
  then have "take (length (sg @ ip @ fp @ ep)) (drop (cur s) (data s)) = sg @ ip @ fp @ ep"
    by (simp only: append_eq_conv_conj take_append) simp
  then have num: "take (cur s3 - cur s) (drop (cur s) (data s3)) = sg @ ip @ fp @ ep"
    by (simp add: s3)
  show ?thesis
    unfolding parseNumber_def Let_def i f e sum.case num float_outcome_def s3 [symmetric]
    by (auto split: prod.splits option.splits strconv_err.splits)
qed

lemma json_numberI:
  "sign_part sg \<Longrightarrow> int_part ip \<Longrightarrow> frac_part fp \<Longrightarrow> exp_part ep
   \<Longrightarrow> json_number (sg @ ip @ fp @ ep)"
  unfolding json_number_def by blast

text \<open>
  C3. For every literal of the JSON number grammar at the cursor, \<open>parseNumber\<close> hands
  exactly the literal to \<open>ParseFloat\<close> and returns what it returns: the float with the
  cursor after the literal when there is no error, so that a magnitude that underflows
  (for which Go returns a zero or subnormal and no error) is accepted silently; the
  numeric-value-out-of-range error when \<open>ParseFloat\<close> reports \<open>ErrRange\<close>, which is
  how Go reports a magnitude beyond the 64-bit range; the invalid-number error is kept
  for \<open>ErrSyntax\<close>.
\<close>

theorem parseNumber_valid_literal:
  assumes "json_number lit" and "number_end rest" and "remaining s = lit @ rest"
  shows "parseNumber ParseFloat s =
    (case ParseFloat lit of
       (val, None) \<Rightarrow> Inr (val, s\<lparr>cur := cur s + length lit\<rparr>)
     | (val, Some ErrRange) \<Rightarrow> Inl ErrNumericValueOutOfRange
     | (val, Some ErrSyntax) \<Rightarrow> Inl ErrInvalidNumber)"
proof -
  obtain sg ip fp ep where lit: "lit = sg @ ip @ fp @ ep"
    and parts: "sign_part sg" "int_part ip" "frac_part fp" "exp_part ep"
    using assms(1) unfolding json_number_def by blast
  have "remaining s = sg @ ip @ fp @ ep @ rest"
    using assms(3) lit by simp
  then show ?thesis
    unfolding lit using parseNumber_parts [OF _ parts assms(2), of s ParseFloat]
    by (auto simp: float_outcome_def split: prod.splits option.splits strconv_err.splits)
qed

lemmas strconv_eval = strconv_ParseFloat_def nearest_float64_def round_half_even_def
  digits_value_def is_digit_def byte_def Let_def bitlen.simps

theorem parseNumber_valid_literal_witness:
  "parseNumber strconv_ParseFloat \<lparr>data = ''1e999'', cur = 0, flags = 0\<rparr>
     = Inl ErrNumericValueOutOfRange
   \<and> parseNumber strconv_ParseFloat \<lparr>data = ''[1e-999]'', cur = 1, flags = 0\<rparr>
     = Inr (0, \<lparr>data = ''[1e-999]'', cur = 7, flags = 0\<rparr>)
   \<and> parseNumber strconv_ParseFloat \<lparr>data = ''-2.5,'', cur = 0, flags = 0\<rparr>
     = Inr (0xC004000000000000, \<lparr>data = ''-2.5,'', cur = 4, flags = 0\<rparr>)"
proof -
  have 1: "json_number ''1e999''"
    using json_numberI [of "[]" "''1''" "[]" "''e999''"]
    by (simp add: sign_part_def int_part_def frac_part_def exp_part_def exp_digits_def
        is_digit_def byte_def)
  have 2: "json_number ''1e-999''"
    using json_numberI [of "[]" "''1''" "[]" "''e-999''"]
    by (simp add: sign_part_def int_part_def frac_part_def exp_part_def exp_digits_def
        is_digit_def byte_def)
  have 3: "json_number ''-2.5''"
    using json_numberI [of "''-''" "''2''" "''.5''" "[]"]
    by (simp add: sign_part_def int_part_def frac_part_def exp_part_def exp_digits_def
        is_digit_def byte_def)
  have a: "strconv_ParseFloat ''1e999'' = (0x7FF0000000000000, Some ErrRange)"
    by (simp add: strconv_eval)
  have b: "strconv_ParseFloat ''1e-999'' = (0, None)"
    by (simp add: strconv_eval)
  have c: "strconv_ParseFloat ''-2.5'' = (0xC004000000000000, None)"
    by (simp add: strconv_eval)
  show ?thesis
    using parseNumber_valid_literal [OF 1, of "[]" "\<lparr>data = ''1e999'', cur = 0, flags = 0\<rparr>"
        strconv_ParseFloat]
      parseNumber_valid_literal [OF 2, of "'']''" "\<lparr>data = ''[1e-999]'', cur = 1, flags = 0\<rparr>"
        strconv_ParseFloat]
      parseNumber_valid_literal [OF 3, of "'',''" "\<lparr>data = ''-2.5,'', cur = 0, flags = 0\<rparr>"
        strconv_ParseFloat]
    by (simp add: a b c number_end_def remaining_def is_digit_def byte_def)
qed

subsection \<open>Unicode escapes\<close>

lemmas scanner_eval = parseString_def peek_def next_def parseString_fast.simps
  parseString_slow.simps parseUnicode_def ParseUint_16_16_def hexDigit_def string_of_rune_def
  dquote_def bslash_def byte_def Let_def char_of_eq_iff

lemma ParseUint_loop_hex:
  assumes "list_all (\<lambda>c. hexDigit c \<noteq> None) hex"
  shows "\<exists>v. ParseUint_loop n hex = Some v \<and> v < (n + 1) * 16 ^ length hex"
  using assms
proof (induction hex arbitrary: n)
  case Nil
  then show ?case by simp
next
  case (Cons c hex)
  then obtain d where d: "hexDigit c = Some d"
    by auto
  then have d16: "d < 16"
    by (auto simp: hexDigit_def byte_def split: if_splits)
  obtain v where v: "ParseUint_loop (n * 16 + d) hex = Some v"
    "v < (n * 16 + d + 1) * 16 ^ length hex"
    using Cons.IH [of "n * 16 + d"] Cons.prems by auto
  have "(n * 16 + d + 1) * 16 ^ length hex \<le> ((n + 1) * 16) * 16 ^ length hex"
    using d16 by (intro mult_right_mono) auto
  then have "v < ((n + 1) * 16) * 16 ^ length hex"
    using v(2) by (rule less_le_trans [rotated])
  then show ?case
    using v(1) d by (simp add: algebra_simps)
qed

lemma ParseUint_16_16_four_hex:
  assumes "length hex = 4" and "list_all (\<lambda>c. hexDigit c \<noteq> None) hex"
  shows "\<exists>v. ParseUint_16_16 hex = Some v \<and> v < 2 ^ 16"
proof -
  obtain v where "ParseUint_loop 0 hex = Some v" "v < (0 + 1) * 16 ^ length hex"
    using ParseUint_loop_hex [OF assms(2), of 0] by blast
  then show ?thesis
    using assms(1) by (auto simp: ParseUint_16_16_def)
qed

text \<open>
  C2 (amended). In the escape-aware loop of \<open>parseString\<close>, a \<open>\u\<close> followed by four
  hexadecimal digits decodes without error, on its own, to the one 16-bit code unit the
  digits denote, and the loop goes on after the six bytes with Go's \<open>string(rune(v))\<close>
  appended to the buffer. For a surrogate half that is the three bytes \<open>EF BF BD\<close> of
  U+FFFD, whatever precedes or follows the escape: two escapes that form a surrogate pair
  are not combined, and a lone half is not kept as a surrogate unit.
\<close>

theorem unicode_escape_decodes_alone:
  assumes "cur s + 6 \<le> length (data s)"
    and "data s ! cur s = bslash" and "data s ! (cur s + 1) = CHR ''u''"
    and "list_all (\<lambda>c. hexDigit c \<noteq> None) (take 4 (drop (cur s + 2) (data s)))"
  shows "\<exists>v. ParseUint_16_16 (take 4 (drop (cur s + 2) (data s))) = Some v \<and> v < 2 ^ 16
    \<and> parseString_slow buf s = parseString_slow (buf @ string_of_rune v) (s\<lparr>cur := cur s + 6\<rparr>)
    \<and> (0xD800 \<le> v \<and> v \<le> 0xDFFF \<longrightarrow> string_of_rune v = [CHR 0xEF, CHR 0xBF, CHR 0xBD])"
proof -
  let ?hex = "take 4 (drop (cur s + 2) (data s))"
  have "length ?hex = 4"
    using assms(1) by simp
  then obtain v where v: "ParseUint_16_16 ?hex = Some v" "v < 2 ^ 16"
    using ParseUint_16_16_four_hex [OF _ assms(4)] by blast
  have pu: "parseUnicode (s\<lparr>cur := Suc (Suc (cur s))\<rparr>) = Inr (v, s\<lparr>cur := cur s + 6\<rparr>)"
    using assms(1) v(1) by (simp add: parseUnicode_def)
  have nx: "next s = (bslash, s\<lparr>cur := Suc (cur s)\<rparr>)"
    using assms(1,2) by (simp add: next_def)
  have pk: "peek (s\<lparr>cur := Suc (cur s)\<rparr>) = CHR ''u''"
    using assms(1,3) by (simp add: peek_def)
  have step: "parseString_slow buf s
      = parseString_slow (buf @ string_of_rune v) (s\<lparr>cur := cur s + 6\<rparr>)"
    unfolding parseString_slow.simps [of buf s] nx
    using assms(1) by (simp add: pk pu Let_def bslash_def dquote_def byte_def)
  have sur: "0xD800 \<le> v \<and> v \<le> 0xDFFF \<longrightarrow> string_of_rune v = [CHR 0xEF, CHR 0xBF, CHR 0xBD]"
    by (simp add: string_of_rune_def)
  show ?thesis
    using v step sur by blast
qed


theorem unicode_escape_decodes_alone_witness:
  "parseString_slow [] \<lparr>data = [dquote, bslash] @ ''uD800'' @ [dquote], cur = 1, flags = 0\<rparr>
     = parseString_slow [CHR 0xEF, CHR 0xBF, CHR 0xBD]
         \<lparr>data = [dquote, bslash] @ ''uD800'' @ [dquote], cur = 7, flags = 0\<rparr>
   \<and> parseString \<lparr>data = [dquote, bslash] @ ''uD800'' @ [dquote], cur = 0, flags = 0\<rparr>
     = Inr ([CHR 0xEF, CHR 0xBF, CHR 0xBD],
            \<lparr>data = [dquote, bslash] @ ''uD800'' @ [dquote], cur = 8, flags = 0\<rparr>)"
proof -
  have "parseString_slow [] \<lparr>data = [dquote, bslash] @ ''uD800'' @ [dquote], cur = 1, flags = 0\<rparr>
     = parseString_slow [CHR 0xEF, CHR 0xBF, CHR 0xBD]
         \<lparr>data = [dquote, bslash] @ ''uD800'' @ [dquote], cur = 7, flags = 0\<rparr>"
    using unicode_escape_decodes_alone
      [of "\<lparr>data = [dquote, bslash] @ ''uD800'' @ [dquote], cur = 1, flags = 0\<rparr>" "[]"]
    by (simp add: ParseUint_16_16_def hexDigit_def byte_def bslash_def dquote_def)
  moreover have "parseString \<lparr>data = [dquote, bslash] @ ''uD800'' @ [dquote], cur = 0, flags = 0\<rparr>
     = Inr ([CHR 0xEF, CHR 0xBF, CHR 0xBD],
            \<lparr>data = [dquote, bslash] @ ''uD800'' @ [dquote], cur = 8, flags = 0\<rparr>)"
    by (simp add: scanner_eval)
  ultimately show ?thesis by simp
qed

text \<open>
  C2 as stated fails: the escapes for the surrogate pair D834, DD1E decode to two
  replacement characters, not to the encoding \<open>F0 9D 84 9E\<close> of the scalar U+1D11E.
\<close>

theorem surrogate_pair_not_combined:
  "parseString \<lparr>data = [dquote, bslash] @ ''uD834'' @ [bslash] @ ''uDD1E'' @ [dquote],
                 cur = 0, flags = 0\<rparr>
     = Inr ([CHR 0xEF, CHR 0xBF, CHR 0xBD, CHR 0xEF, CHR 0xBF, CHR 0xBD],
            \<lparr>data = [dquote, bslash] @ ''uD834'' @ [bslash] @ ''uDD1E'' @ [dquote],
               cur = 14, flags = 0\<rparr>)
   \<and> string_of_rune 0x1D11E = [CHR 0xF0, CHR 0x9D, CHR 0x84, CHR 0x9E]"
  by (simp add: scanner_eval)

section \<open>Properties of the encoder\<close>

lemmas marshal_eval = Marshal_def parseMarshalOptions_def marshalValue.simps marshalFuncs.simps
  marshalDeref.simps marshalCaps.simps marshalPtrCaps.simps marshalKind.simps marshalObj.simps
  marshalArr.simps hadError_def handleError_def put_def Write_def Builder_def Builder_Write_def
  marshalNull_def marshalBool_def marshalString_def scrambleStr_def scrambleLoop.simps
  replace_def slice_def objectBegin_def objectField_def objectEnd_def arrayBegin_def
  arrayElement_def arrayEnd_def Let_def FormatInt_def FormatUint_def digits10.simps
  dquote_def bslash_def byte_def char_of_eq_iff

lemmas format_eval = strconv_FormatFloat_def IsNaN_def IsInf_def sign_bit_def exp_field_def
  frac_field_def float_value_def round_decimal_def decimal_point_def lead_zeros.simps
  trim_zeros_def fmtE_def fmtF_def round_half_even_def digits10.simps byte_def Let_def
  char_of_eq_iff upt_rec

subsection \<open>The error latch\<close>

lemma put_latched: "err d = Some e \<Longrightarrow> put d s = d"
  by (simp add: put_def)

lemma handleError_latched: "err d = Some e \<Longrightarrow> handleError d e' = d"
  by (simp add: handleError_def)

lemma scrambleStr_latched: "err d = Some e \<Longrightarrow> scrambleStr d s = d"
  by (simp add: scrambleStr_def hadError_def)

lemma marshalString_latched: "err d = Some e \<Longrightarrow> marshalString d s = d"
  by (simp add: marshalString_def put_latched scrambleStr_latched)

lemma marshalFloat64_latched: "err d = Some e \<Longrightarrow> marshalFloat64 F d x = d"
  by (simp add: marshalFloat64_def Let_def put_latched handleError_latched)

lemma objectField_latched: "err d = Some e \<Longrightarrow> objectField d k first = d"
  by (simp add: objectField_def Let_def put_latched scrambleStr_latched)

lemma arrayElement_latched: "err d = Some e \<Longrightarrow> arrayElement d first = d"
  by (simp add: arrayElement_def put_latched)

lemma marshalValue_latched: "err d = Some e \<Longrightarrow> marshalValue F d v = d"
  by (subst marshalValue.simps) (simp add: hadError_def)

lemma emit_latched: "err d = Some e \<Longrightarrow> emit F d op = d"
  by (cases op)
    (simp_all add: put_latched handleError_latched scrambleStr_latched marshalString_latched
      marshalFloat64_latched objectField_latched arrayElement_latched marshalValue_latched
      marshalNull_def marshalBool_def objectEnd_def arrayEnd_def marshalObj.simps
      marshalArr.simps hadError_def)

lemma emit_all_latched: "err d = Some e \<Longrightarrow> emit_all F d ops = d"
  unfolding emit_all_def by (induction ops) (simp_all add: emit_latched)

lemma emit_all_append: "emit_all F d (ops1 @ ops2) = emit_all F (emit_all F d ops1) ops2"
  by (simp add: emit_all_def)

text \<open>
  C9. Once the error slot of a decorator is set, \<open>handleError\<close> keeps the error that is
  there, \<open>put\<close> returns the decorator as it is (nothing reaches the sink, the error
  stays), and so does every sequence of emission operations; hence, whatever operations
  follow the ones that set the error, the error that was recorded first is the one that
  remains.
\<close>

theorem error_latch:
  "(err d = Some e \<longrightarrow> handleError d e' = d \<and> put d s = d \<and> emit_all F d ops = d)
   \<and> (err (emit_all F d ops1) = Some e
        \<longrightarrow> emit_all F d (ops1 @ ops2) = emit_all F d ops1)"
  by (simp add: handleError_latched put_latched emit_all_latched emit_all_append)

theorem error_latch_witness:
  "err (put \<lparr>out = errorWriter (ExternalError ''test error''), floatPrecision = 6, err = None\<rparr> ''['')
     = Some (ExternalError ''test error'')
   \<and> put (put \<lparr>out = errorWriter (ExternalError ''test error''), floatPrecision = 6, err = None\<rparr> ''['')
         ''1''
     = put \<lparr>out = errorWriter (ExternalError ''test error''), floatPrecision = 6, err = None\<rparr> ''[''
   \<and> emit_all strconv_FormatFloat
         (put \<lparr>out = errorWriter (ExternalError ''test error''), floatPrecision = 6, err = None\<rparr> ''['')
         [MarshalValue (GInt 1), HandleError ErrUnexpectedToken, MarshalValue (GOther ''chan int'')]
     = put \<lparr>out = errorWriter (ExternalError ''test error''), floatPrecision = 6, err = None\<rparr> ''[''"
proof -
  let ?d = "put \<lparr>out = errorWriter (ExternalError ''test error''), floatPrecision = 6, err = None\<rparr> ''[''"
  have e: "err ?d = Some (ExternalError ''test error'')"
    by (simp add: put_def Write_def errorWriter_def handleError_def Let_def)
  show ?thesis
    using e error_latch [of ?d "ExternalError ''test error''" ErrUnexpectedToken "''1''"
        strconv_FormatFloat
        "[MarshalValue (GInt 1), HandleError ErrUnexpectedToken, MarshalValue (GOther ''chan int'')]"
        "[]" "[]"]
    by simp
qed

subsection \<open>What Marshal returns\<close>

text \<open>
  C10. Whenever \<open>Marshal\<close> returns an error, the string it returns is empty.
\<close>

theorem Marshal_error_empty_string:
  "snd (Marshal F v opts) \<noteq> None \<Longrightarrow> fst (Marshal F v opts) = []"
  by (auto simp: Marshal_def Let_def split: prod.splits option.splits if_splits)

theorem Marshal_error_empty_string_witness:
  "snd (Marshal strconv_FormatFloat (GSlice [GInt 1, GFloat 0x7FF8000000000001]) []) \<noteq> None
   \<and> fst (Marshal strconv_FormatFloat (GSlice [GInt 1, GFloat 0x7FF8000000000001]) []) = []
   \<and> snd (Marshal strconv_FormatFloat (GInt 1) [FloatPrecision (- 1)]) \<noteq> None
   \<and> fst (Marshal strconv_FormatFloat (GInt 1) [FloatPrecision (- 1)]) = []"
proof -
  have 1: "snd (Marshal strconv_FormatFloat (GSlice [GInt 1, GFloat 0x7FF8000000000001]) []) \<noteq> None"
    by (simp add: marshal_eval type_name.simps marshalFloat64_def IsNaN_def IsInf_def
        exp_field_def frac_field_def)
  have 2: "snd (Marshal strconv_FormatFloat (GInt 1) [FloatPrecision (- 1)]) \<noteq> None"
    by (simp add: Marshal_def parseMarshalOptions_def)
  show ?thesis
    using 1 2 Marshal_error_empty_string [OF 1] Marshal_error_empty_string [OF 2] by simp
qed

subsection \<open>Null references\<close>

text \<open>
  C4. A nil pointer handed to the encoder is written as \<open>nullnull\<close>: the first null
  check of \<open>marshalValue\<close> writes \<open>null\<close> and does not return, and the unwrapping loop
  writes it again. The nil interface and a nil reference behind a pointer give \<open>null\<close>.
\<close>

theorem nil_pointer_marshals_null_twice:
  "Marshal F (GPtr None) [] = (''nullnull'', None)
   \<and> Marshal F (GSlice [GPtr None]) [] = (''[nullnull]'', None)
   \<and> Marshal F GNil [] = (''null'', None)
   \<and> Marshal F (GPtr (Some (GPtr None))) [] = (''null'', None)
   \<and> Marshal F (GPtr (Some (GIface None))) [] = (''null'', None)"
  by (simp add: marshal_eval)

subsection \<open>String escaping\<close>

lemma put_on_builder [simp]: "put (on_builder buf p) s = on_builder (buf @ s) p"
  by (simp add: put_def on_builder_def Write_def Builder_Write_def)

lemma err_on_builder [simp]: "err (on_builder buf p) = None"
  by (simp add: on_builder_def)

lemma hadError_on_builder [simp]: "\<not> hadError (on_builder buf p)"
  by (simp add: hadError_def)

lemma floatPrecision_on_builder [simp]: "floatPrecision (on_builder buf p) = p"
  by (simp add: on_builder_def)

lemma replace_on_builder:
  "replace s (c, b, on_builder buf p) with
     = (c + 1, c + 1, on_builder (buf @ slice s b c @ with) p)"
  by (simp add: replace_def Let_def)

lemma byte_less_256: "byte c < 256"
  by (simp add: byte_def)

lemma char_of_byte [simp]: "char_of (byte c) = c"
  by (simp add: byte_def)

lemma char_eq_char_of: "c = char_of n \<longleftrightarrow> take_bit 8 n = (of_char c :: nat)"
  using char_of_eq_iff [of n c] by auto

lemma ctrl_low_escape:
  assumes "byte cp \<le> 0x0f" and "cp \<noteq> CHR 0x08" and "cp \<noteq> CHR 0x0C" and "cp \<noteq> CHR 0x0A"
    and "cp \<noteq> CHR 0x0D" and "cp \<noteq> CHR 0x09"
  shows "ctrl_low cp = escape_byte cp"
proof -
  have "cp \<noteq> bslash" "cp \<noteq> dquote"
    using assms(1) by (auto simp: bslash_def dquote_def byte_def)
  moreover have "byte cp div 16 = 0" "byte cp mod 16 = byte cp"
    using assms(1) by simp_all
  ultimately show ?thesis
    using assms
    by (auto simp: ctrl_low_def escape_byte_def hex_lower_def byte_def char_eq_char_of
        char_of_eq_iff take_bit_eq_mod)
qed

lemma ctrl_high_escape:
  assumes "\<not> byte cp \<le> 0x0f" and "byte cp \<le> 0x1f"
  shows "ctrl_high cp = escape_byte cp"
proof -
  have ne: "cp \<noteq> bslash" "cp \<noteq> dquote" "cp \<noteq> CHR 0x08" "cp \<noteq> CHR 0x0C" "cp \<noteq> CHR 0x0A"
    "cp \<noteq> CHR 0x0D" "cp \<noteq> CHR 0x09"
    using assms by (auto simp: bslash_def dquote_def byte_def)
  have "byte cp div 16 = 1" "byte cp mod 16 = byte cp - 16"
    using assms by (simp_all add: div_nat_eqI mod_if)
  then show ?thesis
    using assms ne
    by (auto simp: ctrl_high_def escape_byte_def hex_lower_def byte_def char_eq_char_of
        char_of_eq_iff take_bit_eq_mod)
qed

lemma plain_byte_iff:
  "plain_byte cp \<longleftrightarrow> (cp \<noteq> CHR 0x08 \<and> cp \<noteq> CHR 0x0C \<and> cp \<noteq> CHR 0x0A \<and> cp \<noteq> CHR 0x0D
     \<and> cp \<noteq> CHR 0x09 \<and> cp \<noteq> bslash \<and> cp \<noteq> dquote \<and> \<not> byte cp \<le> 0x1f)"
  by (auto simp: plain_byte_def escape_byte_def bslash_def dquote_def byte_def)

lemma escape_Cons: "escape (c # s) = escape_byte c @ escape s"
  by (simp add: escape_def)

lemma escape_append: "escape (s @ t) = escape s @ escape t"
  by (simp add: escape_def)

lemma escape_plain: "list_all plain_byte s \<Longrightarrow> escape s = s"
  by (induction s) (simp_all add: escape_def plain_byte_def)

lemma slice_Suc:
  assumes "b \<le> c" and "c < length s"
  shows "slice s b (Suc c) = slice s b c @ [s ! c]"
proof -
  have "take (Suc (c - b)) (drop b s) = take (c - b) (drop b s) @ [drop b s ! (c - b)]"
    using assms by (simp add: take_Suc_conv_app_nth)
  then show ?thesis
    using assms by (simp add: slice_def Suc_diff_le)
qed

lemma drop_slice:
  assumes "b \<le> c" and "c \<le> length s"
  shows "drop b s = slice s b c @ drop c s"
proof -
  have "drop b s = take (c - b) (drop b s) @ drop (c - b) (drop b s)"
    by (rule append_take_drop_id [symmetric])
  then show ?thesis
    using assms by (simp add: slice_def)
qed

lemma scrambleLoop_on_builder:
  assumes "b \<le> c" and "c \<le> length s" and "list_all plain_byte (slice s b c)"
  shows "\<exists>b' buf'. scrambleLoop s (c, b, on_builder buf p) = (length s, b', on_builder buf' p)
     \<and> b' \<le> length s \<and> buf' @ slice s b' (length s) = buf @ escape (drop b s)"
  using assms
proof (induction "length s - c" arbitrary: c b buf rule: less_induct)
  case less
  show ?case
  proof (cases "c < length s")
    case False
    then have c: "c = length s"
      using less.prems by simp
    have "escape (drop b s) = slice s b c"
      using drop_slice [OF less.prems(1,2)] escape_plain [OF less.prems(3)] c by simp
    then show ?thesis
      using c less.prems by (subst scrambleLoop.simps) simp
  next
    case lt: True
    let ?cp = "s ! c"
    have m: "length s - (c + 1) < length s - c"
      using lt by simp
    have dr: "drop b s = slice s b c @ ?cp # drop (c + 1) s"
      using drop_slice [OF less.prems(1,2)] lt by (simp add: Cons_nth_drop_Suc)
    have esc: "escape (drop b s) = slice s b c @ escape_byte ?cp @ escape (drop (c + 1) s)"
      using escape_plain [OF less.prems(3)] by (simp add: dr escape_append escape_Cons)
    show ?thesis
    proof (cases "plain_byte ?cp")
      case True
      have pl: "list_all plain_byte (slice s b (c + 1))"
        using True less.prems lt by (simp add: slice_Suc)
      obtain b' buf' where r: "scrambleLoop s (c + 1, b, on_builder buf p) = (length s, b', on_builder buf' p)"
        "b' \<le> length s" "buf' @ slice s b' (length s) = buf @ escape (drop b s)"
        using less.hyps [OF m _ _ pl, of buf] less.prems lt by auto
      have "scrambleLoop s (c, b, on_builder buf p) = scrambleLoop s (c + 1, b, on_builder buf p)"
        using True lt by (subst scrambleLoop.simps) (simp add: plain_byte_iff Let_def)
      then show ?thesis
        using r by auto
    next
      case False
      define w where "w = escape_byte ?cp"
      have step: "scrambleLoop s (c, b, on_builder buf p)
          = scrambleLoop s (c + 1, c + 1, on_builder (buf @ slice s b c @ w) p)"
        using False lt ctrl_low_escape [of ?cp] ctrl_high_escape [of ?cp]
        by (subst scrambleLoop.simps)
          (auto simp: plain_byte_iff Let_def replace_on_builder w_def escape_byte_def)
      obtain b' buf' where r:
        "scrambleLoop s (c + 1, c + 1, on_builder (buf @ slice s b c @ w) p)
           = (length s, b', on_builder buf' p)"
        "b' \<le> length s"
        "buf' @ slice s b' (length s) = (buf @ slice s b c @ w) @ escape (drop (c + 1) s)"
        using less.hyps [OF m, of "c + 1" "buf @ slice s b c @ w"] lt
        by (auto simp: slice_def)
      show ?thesis
        using step r esc by (auto simp: w_def)
    qed
  qed
qed

lemma scrambleStr_on_builder:
  "scrambleStr (on_builder buf p) s = on_builder (buf @ escape s) p"
proof (cases "s = []")
  case True
  then show ?thesis by (simp add: scrambleStr_def escape_def)
next
  case False
  obtain b' buf' where r: "scrambleLoop s (0, 0, on_builder buf p) = (length s, b', on_builder buf' p)"
    "b' \<le> length s" "buf' @ slice s b' (length s) = buf @ escape (drop 0 s)"
    using scrambleLoop_on_builder [of 0 0 s buf p] by (auto simp: slice_def)
  have "b' = length s \<Longrightarrow> slice s b' (length s) = []"
    by (simp add: slice_def)
  then show ?thesis
    using False r by (auto simp: scrambleStr_def)
qed

lemma escape_high_bytes: "list_all (\<lambda>c. byte c \<ge> 0x80) s \<Longrightarrow> escape s = s"
proof (rule escape_plain)
  assume "list_all (\<lambda>c. byte c \<ge> 0x80) s"
  then show "list_all plain_byte s"
    by (auto simp: list_all_iff plain_byte_iff bslash_def dquote_def byte_def)
qed

text \<open>
  C8. On a sink that does not fail, \<open>scrambleStr\<close> appends to the output the escapes
  of the bytes of the string in their order: the two-character escape for each of
  \<open>\b \f \n \r \t \\ \"\<close>, \<open>\u00XX\<close> with lowercase hex digits for every other byte
  below \<open>0x20\<close>, and every other byte as it is; the forward slash is not escaped, and a
  run of bytes of multi-byte UTF-8 sequences (all \<open>0x80\<close> or above) comes out unchanged.
\<close>

theorem scrambleStr_escapes:
  "scrambleStr (on_builder buf p) s = on_builder (buf @ concat (map escape_byte s)) p
   \<and> escape_byte CHR ''/'' = ''/''
   \<and> (list_all (\<lambda>c. byte c \<ge> 0x80) s \<longrightarrow> concat (map escape_byte s) = s)"
  using scrambleStr_on_builder [of buf p s] escape_high_bytes [of s]
  by (simp add: escape_def escape_byte_def bslash_def dquote_def byte_def)

theorem scrambleStr_escapes_witness:
  "scrambleStr (on_builder [] 6) ([CHR 0xC3, CHR 0xA9])
     = on_builder [CHR 0xC3, CHR 0xA9] 6
   \<and> list_all (\<lambda>c. byte c \<ge> 0x80) [CHR 0xC3, CHR 0xA9]
   \<and> scrambleStr (on_builder ''x'' 6) (''a/'' @ [CHR 0x0A, CHR 0x1F, dquote])
     = on_builder (''xa/'' @ [bslash] @ ''n'' @ [bslash] @ ''u001f'' @ [bslash, dquote]) 6"
  using scrambleStr_escapes [of "[]" 6 "[CHR 0xC3, CHR 0xA9]"]
    scrambleStr_escapes [of "''x''" 6 "''a/'' @ [CHR 0x0A, CHR 0x1F, dquote]"]
  by (simp add: escape_byte_def hex_lower_def bslash_def dquote_def byte_def char_of_eq_iff
      on_builder_def)

subsection \<open>The text of plain values\<close>

lemma marshalString_on_builder:
  "marshalString (on_builder buf p) s = on_builder (buf @ quoted s) p"
  by (simp add: marshalString_def scrambleStr_on_builder quoted_def)

lemma objectField_on_builder:
  "objectField (on_builder buf p) k first
     = on_builder (buf @ (if first then ''{'' else '','') @ quoted k @ '':'') p"
  by (simp add: objectField_def scrambleStr_on_builder quoted_def Let_def)

lemma arrayElement_on_builder:
  "arrayElement (on_builder buf p) first = on_builder (buf @ (if first then ''['' else '','')) p"
  by (simp add: arrayElement_def)

lemma marshalValue_kind:
  assumes "case v of GSlice es \<Rightarrow> True | GMap kvs \<Rightarrow> True | GInt i \<Rightarrow> True | GUint n \<Rightarrow> True
    | GFloat x \<Rightarrow> True | GString s \<Rightarrow> True | GBool b \<Rightarrow> True | GBytes bs \<Rightarrow> True | _ \<Rightarrow> False"
  shows "marshalValue F (on_builder buf p) v
    = marshalKind F (on_builder buf p) False (type_name v) v"
  using assms
  by (cases v)
    (simp_all add: marshalValue.simps marshalFuncs.simps marshalDeref.simps marshalCaps.simps)

lemma marshalSlice_on_builder:
  assumes "\<And>v buf. v \<in> set vs \<Longrightarrow> marshalValue F (on_builder buf p) v = on_builder (buf @ T v) p"
  shows "marshalSlice F (on_builder buf p) i vs
    = on_builder (buf @ (if i = 0 then (if vs = [] then ''[]'' else ''['' @ comma_separated (map T vs) @ '']'')
                         else concat (map (\<lambda>v. '','' @ T v) vs) @ '']'')) p"
  using assms
proof (induction vs arbitrary: buf i)
  case Nil
  then show ?case by (simp add: arrayEnd_def)
next
  case (Cons v vs)
  have "marshalSlice F (on_builder buf p) i (v # vs)
      = marshalSlice F (on_builder (buf @ (if i = 0 then ''['' else '','') @ T v) p) (i + 1) vs"
    using Cons.prems [of v] by (simp add: arrayElement_on_builder Let_def)
  also have "\<dots> = on_builder ((buf @ (if i = 0 then ''['' else '','') @ T v)
      @ concat (map (\<lambda>v. '','' @ T v) vs) @ '']'') p"
    using Cons.IH [of "buf @ (if i = 0 then ''['' else '','') @ T v" "i + 1"] Cons.prems by simp
  finally show ?case by (simp add: comp_def)
qed

lemma marshalPairs_on_builder:
  assumes "\<And>kv buf. kv \<in> set kvs
      \<Longrightarrow> marshalValue F (on_builder buf p) (snd kv) = on_builder (buf @ T (snd kv)) p"
  shows "marshalPairs F (on_builder buf p) i kvs
    = on_builder (buf @ (if i = 0 then (if kvs = [] then ''{}''
                           else ''{'' @ comma_separated (map (\<lambda>kv. quoted (fst kv) @ '':'' @ T (snd kv)) kvs) @ ''}'')
                         else concat (map (\<lambda>kv. '','' @ quoted (fst kv) @ '':'' @ T (snd kv)) kvs) @ ''}'')) p"
  using assms
proof (induction kvs arbitrary: buf i)
  case Nil
  then show ?case by (simp add: objectEnd_def)
next
  case (Cons kv kvs)
  let ?b = "buf @ (if i = 0 then ''{'' else '','') @ quoted (fst kv) @ '':'' @ T (snd kv)"
  have "marshalPairs F (on_builder buf p) i (kv # kvs) = marshalPairs F (on_builder ?b p) (i + 1) kvs"
    using Cons.prems [of kv] by (simp add: objectField_on_builder Let_def)
  also have "\<dots> = on_builder (?b @ concat (map (\<lambda>kv. '','' @ quoted (fst kv) @ '':'' @ T (snd kv)) kvs) @ ''}'') p"
    using Cons.IH [of ?b "i + 1"] Cons.prems by simp
  finally show ?case by (simp add: comp_def)
qed

lemma marshalValue_plain:
  "plain v \<Longrightarrow> marshalValue F (on_builder buf p) v = on_builder (buf @ json_text F p v) p"
proof (induction F p v arbitrary: buf rule: json_text.induct)
  case (1 F p)
  then show ?case by (simp add: marshalValue.simps marshalNull_def)
next
  case (2 F p b)
  then show ?case by (simp add: marshalValue_kind marshalKind.simps marshalBool_def)
next
  case (3 F p i)
  then show ?case by (simp add: marshalValue_kind marshalKind.simps)
next
  case (4 F p n)
  then show ?case by (simp add: marshalValue_kind marshalKind.simps)
next
  case (5 F p x)
  then show ?case by (simp add: marshalValue_kind marshalKind.simps marshalFloat64_def)
next
  case (6 F p s)
  then show ?case by (simp add: marshalValue_kind marshalKind.simps marshalString_on_builder)
next
  case (7 F p s)
  then show ?case by (simp add: marshalValue_kind marshalKind.simps marshalString_on_builder)
next
  case (8 F p es)
  have "marshalValue F (on_builder buf p) v = on_builder (buf @ json_text F p v) p"
    if "v \<in> set es" for v buf
  proof (rule "8.IH")
    show "es \<noteq> []" "v \<in> set es" "plain v"
      using that "8.prems" by (auto simp: list_all_iff)
  qed
  then show ?case
    using marshalSlice_on_builder [of es F p "json_text F p" buf 0]
    by (simp add: marshalValue_kind marshalKind.simps arrayBegin_def)
next
  case (9 F p kvs)
  have "marshalValue F (on_builder buf p) (snd kv) = on_builder (buf @ json_text F p (snd kv)) p"
    if "kv \<in> set (sort_key fst kvs)" for kv buf
  proof (rule "9.IH")
    show "kvs \<noteq> []" "kv \<in> set (sort_key fst kvs)" "plain (snd kv)"
      using that "9.prems" by (auto simp: list_all_iff)
  qed
  then show ?case
    using marshalPairs_on_builder [of "sort_key fst kvs" F p "json_text F p" buf 0]
    by (simp add: marshalValue_kind marshalKind.simps objectBegin_def)
qed simp_all

lemma Marshal_plain:
  assumes "plain v" and "snd (parseMarshalOptions opts) = None"
  shows "Marshal F v opts = (json_text F (fst (parseMarshalOptions opts)) v, None)"
proof -
  have "\<lparr>out = Builder, floatPrecision = p, err = None\<rparr> = on_builder [] p" for p
    by (simp add: on_builder_def Builder_def)
  then show ?thesis
    using assms marshalValue_plain [OF assms(1), of F "[]"]
    by (auto simp: Marshal_def on_builder_def split: prod.splits option.splits)
qed

subsection \<open>Maps\<close>

lemma distinct_map_insort_key:
  "distinct (map f (insort_key f x xs)) \<longleftrightarrow> f x \<notin> f ` set xs \<and> distinct (map f xs)"
  by (induction xs) (auto simp: set_insort_key)

lemma distinct_map_sort_key:
  "distinct (map f (sort_key f xs)) \<longleftrightarrow> distinct (map f xs)"
  by (induction xs) (auto simp: distinct_map_insort_key)

lemma sort_key_Nil_iff: "sort_key f xs = [] \<longleftrightarrow> xs = []"
  using length_sort [of f xs] by (metis length_0_conv)

subsection \<open>The encoder on a builder\<close>

lemma shift_simps [simp]:
  "err (shift pre d) = err d" "floatPrecision (shift pre d) = floatPrecision d"
  "hadError (shift pre d) = hadError d" "builder (shift pre d) = builder d"
  "sink (out (shift pre d)) = pre @ sink (out d)"
  by (simp_all add: shift_def hadError_def builder_def)

lemma shift_on_builder [simp]: "shift pre (on_builder buf p) = on_builder (pre @ buf) p"
  by (simp add: shift_def on_builder_def)

lemma builder_on_builder [simp]: "builder (on_builder buf p)"
  by (simp add: builder_def on_builder_def)

lemma builder_no_error:
  assumes "builder d" and "err d = None"
  shows "d = on_builder (sink (out d)) (floatPrecision d)"
proof -
  have "out d = Writer (sink (out d)) Builder_Write"
    using assms(1) by (cases "out d") (simp add: builder_def)
  then show ?thesis
    using assms(2) by (cases d) (simp add: on_builder_def)
qed

lemma shift_update_err: "shift pre (d\<lparr>err := e\<rparr>) = (shift pre d)\<lparr>err := e\<rparr>"
  by (simp add: shift_def)

lemma put_frame:
  assumes "builder d"
  shows "builder (put d s)" and "floatPrecision (put d s) = floatPrecision d"
    and "put (shift pre d) s = shift pre (put d s)"
proof -
  show "builder (put d s)" "floatPrecision (put d s) = floatPrecision d"
    using assms
    by (simp_all add: put_def builder_def Write_def Builder_Write_def Let_def handleError_def)
  show "put (shift pre d) s = shift pre (put d s)"
    using assms
    by (simp add: put_def builder_def Write_def Builder_Write_def Let_def shift_def)
qed

lemma handleError_frame:
  "builder (handleError d e) = builder d"
  "floatPrecision (handleError d e) = floatPrecision d"
  "handleError (shift pre d) e = shift pre (handleError d e)"
  by (simp_all add: handleError_def builder_def shift_def)

lemma panic_frame:
  "builder (d\<lparr>err := e\<rparr>) = builder d"
  "(shift pre d)\<lparr>err := e\<rparr> = shift pre (d\<lparr>err := e\<rparr>)"
  by (simp_all add: builder_def shift_def)

lemma scrambleStr_frame:
  assumes "builder d"
  shows "builder (scrambleStr d s)" and "floatPrecision (scrambleStr d s) = floatPrecision d"
    and "scrambleStr (shift pre d) s = shift pre (scrambleStr d s)"
proof -
  have "builder (scrambleStr d s) \<and> floatPrecision (scrambleStr d s) = floatPrecision d
    \<and> scrambleStr (shift pre d) s = shift pre (scrambleStr d s)"
  proof (cases "err d")
    case None
    then obtain buf p where d: "d = on_builder buf p"
      using builder_no_error [OF assms] by blast
    show ?thesis
      by (simp add: d scrambleStr_on_builder)
  next
    case (Some e)
    then show ?thesis
      using assms by (simp add: scrambleStr_latched)
  qed
  then show "builder (scrambleStr d s)" "floatPrecision (scrambleStr d s) = floatPrecision d"
    "scrambleStr (shift pre d) s = shift pre (scrambleStr d s)"
    by simp_all
qed

lemma marshalString_frame:
  assumes "builder d"
  shows "builder (marshalString d s)" and "floatPrecision (marshalString d s) = floatPrecision d"
    and "marshalString (shift pre d) s = shift pre (marshalString d s)"
  using assms by (simp_all add: marshalString_def put_frame scrambleStr_frame)

lemma marshalNull_frame:
  assumes "builder d"
  shows "builder (marshalNull d)" and "floatPrecision (marshalNull d) = floatPrecision d"
    and "marshalNull (shift pre d) = shift pre (marshalNull d)"
  using assms by (simp_all add: marshalNull_def put_frame)

lemma marshalBool_frame:
  assumes "builder d"
  shows "builder (marshalBool d b)" and "floatPrecision (marshalBool d b) = floatPrecision d"
    and "marshalBool (shift pre d) b = shift pre (marshalBool d b)"
  using assms by (simp_all add: marshalBool_def put_frame)

lemma marshalFloat64_frame:
  assumes "builder d"
  shows "builder (marshalFloat64 F d x)"
    and "floatPrecision (marshalFloat64 F d x) = floatPrecision d"
    and "marshalFloat64 F (shift pre d) x = shift pre (marshalFloat64 F d x)"
  using assms by (simp_all add: marshalFloat64_def Let_def put_frame handleError_frame)

lemma objectField_frame:
  assumes "builder d"
  shows "builder (objectField d k first)"
    and "floatPrecision (objectField d k first) = floatPrecision d"
    and "objectField (shift pre d) k first = shift pre (objectField d k first)"
  using assms by (simp_all add: objectField_def Let_def put_frame scrambleStr_frame)

lemma objectEnd_frame:
  assumes "builder d"
  shows "builder (objectEnd d e)" and "floatPrecision (objectEnd d e) = floatPrecision d"
    and "objectEnd (shift pre d) e = shift pre (objectEnd d e)"
  using assms by (simp_all add: objectEnd_def put_frame)

lemma arrayElement_frame:
  assumes "builder d"
  shows "builder (arrayElement d first)"
    and "floatPrecision (arrayElement d first) = floatPrecision d"
    and "arrayElement (shift pre d) first = shift pre (arrayElement d first)"
  using assms by (simp_all add: arrayElement_def put_frame)

lemma arrayEnd_frame:
  assumes "builder d"
  shows "builder (arrayEnd d e)" and "floatPrecision (arrayEnd d e) = floatPrecision d"
    and "arrayEnd (shift pre d) e = shift pre (arrayEnd d e)"
  using assms by (simp_all add: arrayEnd_def put_frame)

lemmas frame_simps = put_frame handleError_frame panic_frame marshalString_frame
  marshalNull_frame marshalBool_frame marshalFloat64_frame objectField_frame objectEnd_frame
  arrayElement_frame arrayEnd_frame objectBegin_def arrayBegin_def

lemma marshalValue_frames: "frames (\<lambda>x. marshalValue F x v) d"
proof (rule marshalValue_marshalFuncs_marshalDeref_marshalCaps_marshalPtrCaps_marshalKind_marshalObj_marshalArr_Element_calls_Member_calls_marshalSlice_marshalPairs.induct(1)
    [where ?P1.0 = "\<lambda>F d v. frames (\<lambda>x. marshalValue F x v) d"
       and ?P2.0 = "\<lambda>F d v. frames (\<lambda>x. marshalFuncs F x v) d"
       and ?P3.0 = "\<lambda>F d a v. frames (\<lambda>x. marshalDeref F x a v) d"
       and ?P4.0 = "\<lambda>F d a v. frames (\<lambda>x. marshalCaps F x a v) d"
       and ?P5.0 = "\<lambda>F d n pm u. frames (\<lambda>x. marshalPtrCaps F x n pm u) d"
       and ?P6.0 = "\<lambda>F d a tn v. frames (\<lambda>x. marshalKind F x a tn v) d"
       and ?P7.0 = "\<lambda>F d ms e. frames (\<lambda>x. marshalObj F x ms e) d"
       and ?P8.0 = "\<lambda>F d es e. frames (\<lambda>x. marshalArr F x es e) d"
       and ?P9.0 = "\<lambda>F d k es. frames_count (\<lambda>x. Element_calls F x k es) d"
       and ?P10.0 = "\<lambda>F d k ms. frames_count (\<lambda>x. Member_calls F x k ms) d"
       and ?P11.0 = "\<lambda>F d i es. frames (\<lambda>x. marshalSlice F x i es) d"
       and ?P12.0 = "\<lambda>F d i kvs. frames (\<lambda>x. marshalPairs F x i kvs) d"],
    goal_cases)
  case (1 F d v)
  show ?case
  proof (cases "hadError d \<or> v = GNil")
    case True
    then show ?thesis
      unfolding frames_def by (auto simp: marshalValue.simps frame_simps)
  next
    case False
    define d' where "d' = (if v = GPtr None then marshalNull d else d)"
    have IH: "frames (\<lambda>x. marshalFuncs F x v) d'"
      using 1 False unfolding d'_def by blast
    show ?thesis
      unfolding frames_def
    proof (intro impI)
      assume bd: "builder d"
      have b: "builder d'" and fp: "floatPrecision d' = floatPrecision d"
        using bd by (simp_all add: d'_def frame_simps)
      have sh: "(if v = GPtr None then marshalNull (shift pre d) else shift pre d) = shift pre d'"
        for pre
        using bd by (simp add: d'_def frame_simps)
      have 1: "marshalValue F d v = marshalFuncs F d' v"
        using False by (subst marshalValue.simps) (simp add: d'_def)
      have 2: "marshalValue F (shift pre d) v = marshalFuncs F (shift pre d') v" for pre
        using False by (subst marshalValue.simps) (simp add: sh)
      show "builder (marshalValue F d v) \<and> floatPrecision (marshalValue F d v) = floatPrecision d
        \<and> (\<forall>pre. marshalValue F (shift pre d) v = shift pre (marshalValue F d v))"
        unfolding 1 2 using IH b fp unfolding frames_def by simp
    qed
  qed
next
  case (2 F d v)
  then show ?case
    unfolding frames_def frames_count_def
    by (cases v)
      (simp_all add: marshalFuncs.simps frame_simps case_prod_beta split: option.split)
next
  case (3 F d a v)
  then show ?case
    unfolding frames_def
    by (cases v)
      (simp_all add: marshalDeref.simps frame_simps split: option.split)
next
  case (4 F d a v)
  then show ?case
    unfolding frames_def frames_count_def
    by (cases v)
      (simp_all add: marshalCaps.simps frame_simps
        split: option.split methods.split marshalJSN.split prod.split)
next
  case (5 F d n pm u)
  then show ?case
    unfolding frames_def frames_count_def
    by (simp add: marshalPtrCaps.simps frame_simps
        split: option.split methods.split marshalJSN.split prod.split)
next
  case (6 F d a tn v)
  then show ?case
    unfolding frames_def
    by (cases v) (simp_all add: marshalKind.simps frame_simps)
next
  case (7 F d ms e)
  then show ?case
    unfolding frames_def frames_count_def
    by (simp add: marshalObj.simps frame_simps case_prod_beta split: option.split)
next
  case (8 F d es e)
  then show ?case
    unfolding frames_def frames_count_def
    by (simp add: marshalArr.simps frame_simps case_prod_beta split: option.split)
next
  case (9 F d n)
  then show ?case unfolding frames_count_def by simp
next
  case (10 F d n v vs)
  then show ?case
    unfolding frames_def frames_count_def by (simp add: frame_simps)
next
  case (11 F d n)
  then show ?case unfolding frames_count_def by simp
next
  case (12 F d n kv ms)
  then show ?case
    unfolding frames_def frames_count_def by (simp add: frame_simps)
next
  case (13 F d i)
  then show ?case unfolding frames_def by (simp add: frame_simps)
next
  case (14 F d i v vs)
  then show ?case
    unfolding frames_def by (simp add: frame_simps Let_def)
next
  case (15 F d i)
  then show ?case unfolding frames_def by (simp add: frame_simps)
next
  case (16 F d i kv kvs)
  then show ?case
    unfolding frames_def by (simp add: frame_simps Let_def)
qed

lemma marshalValue_builder:
  "marshalValue F (on_builder buf p) v
     = \<lparr>out = Writer (buf @ value_text F p v) Builder_Write, floatPrecision = p,
        err = value_error F p v\<rparr>"
proof -
  define R where "R = marshalValue F (on_builder [] p) v"
  have "frames (\<lambda>x. marshalValue F x v) (on_builder [] p)"
    by (rule marshalValue_frames)
  then have "builder R \<and> floatPrecision R = floatPrecision (on_builder [] p)
    \<and> (\<forall>pre. marshalValue F (shift pre (on_builder [] p)) v = shift pre R)"
    unfolding frames_def R_def using builder_on_builder by blast
  then have fr: "builder R" "floatPrecision R = p"
    "marshalValue F (shift buf (on_builder [] p)) v = shift buf R"
    by (simp_all only: floatPrecision_on_builder)
  have "shift buf R = \<lparr>out = Writer (buf @ sink (out R)) Builder_Write, floatPrecision = p,
        err = err R\<rparr>"
    using fr(1,2) by (cases R) (simp add: shift_def builder_def)
  moreover have "shift buf (on_builder [] p) = on_builder buf p"
    by simp
  ultimately show ?thesis
    using fr(3) unfolding value_text_def value_error_def R_def by simp
qed

lemma marshalValue_builder_ok:
  "value_error F p v = None
   \<Longrightarrow> marshalValue F (on_builder buf p) v = on_builder (buf @ value_text F p v) p"
  unfolding marshalValue_builder by (simp add: on_builder_def)

lemma Marshal_value:
  assumes "parseMarshalOptions opts = (p, None)"
  shows "Marshal F v opts
    = (if value_error F p v \<noteq> None then ([], value_error F p v) else (value_text F p v, None))"
proof -
  have "\<lparr>out = Builder, floatPrecision = p, err = None\<rparr> = on_builder [] p"
    by (simp add: on_builder_def Builder_def)
  then show ?thesis
    using assms by (simp add: Marshal_def value_text_def value_error_def Let_def)
qed

lemma Marshal_options_error:
  "snd (parseMarshalOptions opts) = Some e \<Longrightarrow> Marshal F v opts = ([], Some e)"
  by (cases "parseMarshalOptions opts") (simp add: Marshal_def)

lemma marshalPairs_error:
  "err (marshalPairs F (on_builder buf p) i ms)
     = (case find (\<lambda>kv. value_error F p (snd kv) \<noteq> None) ms of
          None \<Rightarrow> None
        | Some kv \<Rightarrow> value_error F p (snd kv))"
proof (induction ms arbitrary: buf i)
  case Nil
  show ?case by (simp add: objectEnd_def)
next
  case (Cons kv ms)
  let ?b = "buf @ (if i = 0 then ''{'' else '','') @ quoted (fst kv) @ '':''"
  have of: "objectField (on_builder buf p) (fst kv) (i = 0) = on_builder ?b p"
    by (simp add: objectField_on_builder)
  show ?case
  proof (cases "value_error F p (snd kv)")
    case None
    then show ?thesis
      using Cons.IH [of "?b @ value_text F p (snd kv)" "i + 1"]
      by (simp add: of marshalValue_builder_ok Let_def)
  next
    case (Some e)
    then show ?thesis
      by (simp add: of marshalValue_builder Let_def hadError_def)
  qed
qed

lemma marshalValue_map:
  "marshalValue F (on_builder buf p) (GMap kvs)
     = marshalPairs F (on_builder buf p) 0 (sort_key fst kvs)"
  by (simp add: marshalValue_kind marshalKind.simps objectBegin_def)

lemma value_map:
  "value_error F p (GMap kvs)
     = (case find (\<lambda>kv. value_error F p (snd kv) \<noteq> None) (sort_key fst kvs) of
          None \<Rightarrow> None
        | Some kv \<Rightarrow> value_error F p (snd kv))"
  "find (\<lambda>kv. value_error F p (snd kv) \<noteq> None) (sort_key fst kvs) = None
   \<Longrightarrow> value_text F p (GMap kvs)
     = (if kvs = [] then ''{}''
        else ''{'' @ comma_separated
               (map (\<lambda>kv. quoted (fst kv) @ '':'' @ value_text F p (snd kv)) (sort_key fst kvs))
             @ ''}'')"
proof -
  show "value_error F p (GMap kvs)
     = (case find (\<lambda>kv. value_error F p (snd kv) \<noteq> None) (sort_key fst kvs) of
          None \<Rightarrow> None
        | Some kv \<Rightarrow> value_error F p (snd kv))"
    unfolding value_error_def [of F p "GMap kvs"] marshalValue_map by (rule marshalPairs_error)
  assume "find (\<lambda>kv. value_error F p (snd kv) \<noteq> None) (sort_key fst kvs) = None"
  then have ok: "value_error F p (snd kv) = None" if "kv \<in> set (sort_key fst kvs)" for kv
    using that by (cases kv) (auto simp: find_None_iff)
  have "marshalPairs F (on_builder [] p) 0 (sort_key fst kvs)
    = on_builder ([] @ (if (0::nat) = 0 then (if sort_key fst kvs = [] then ''{}''
         else ''{'' @ comma_separated
                (map (\<lambda>kv. quoted (fst kv) @ '':'' @ value_text F p (snd kv)) (sort_key fst kvs))
              @ ''}'')
       else concat (map (\<lambda>kv. '','' @ quoted (fst kv) @ '':'' @ value_text F p (snd kv))
              (sort_key fst kvs)) @ ''}'')) p"
    by (rule marshalPairs_on_builder) (simp add: ok marshalValue_builder_ok)
  then show "value_text F p (GMap kvs)
     = (if kvs = [] then ''{}''
        else ''{'' @ comma_separated
               (map (\<lambda>kv. quoted (fst kv) @ '':'' @ value_text F p (snd kv)) (sort_key fst kvs))
             @ ''}'')"
    unfolding value_text_def [of F p "GMap kvs"] marshalValue_map
    by (simp add: on_builder_def sort_key_Nil_iff)
qed

text \<open>
  C5. For every string-keyed map, whatever its values are, and for every list of
  options, \<open>Marshal\<close> goes through the entries in the order \<open>sort.Slice\<close> gives them:
  a rearrangement of the entries with the keys ascending in the bytewise lexicographic
  order of Go's \<open><\<close> on strings (strictly, the keys of a map being distinct). If the
  options are in order and \<open>Marshal\<close> gives no error for any of the values, the result
  is the object with one member \<open>"key":value\<close> per entry in this order, the value as
  \<open>Marshal\<close> writes it alone, a comma between members and no whitespace, \<open>{}\<close> for
  the empty map. Otherwise the result is the empty string with the error of the options
  or of the first value, in this order, that has one.
\<close>

theorem map_keys_sorted:
  "Marshal F (GMap kvs) opts =
     (case snd (parseMarshalOptions opts) of
        Some e \<Rightarrow> ([], Some e)
      | None \<Rightarrow>
          (case find (\<lambda>kv. snd (Marshal F (snd kv) opts) \<noteq> None) (sort_key fst kvs) of
             Some kv \<Rightarrow> ([], snd (Marshal F (snd kv) opts))
           | None \<Rightarrow>
               (if kvs = [] then ''{}''
                else ''{'' @ comma_separated
                       (map (\<lambda>kv. quoted (fst kv) @ '':'' @ fst (Marshal F (snd kv) opts))
                          (sort_key fst kvs))
                     @ ''}'', None)))
   \<and> sorted (map fst (sort_key fst kvs))
   \<and> set (sort_key fst kvs) = set kvs \<and> length (sort_key fst kvs) = length kvs
   \<and> (distinct (map fst kvs) \<longrightarrow> sorted_wrt (<) (map fst (sort_key fst kvs)))"
proof (intro conjI impI)
  show "Marshal F (GMap kvs) opts =
     (case snd (parseMarshalOptions opts) of
        Some e \<Rightarrow> ([], Some e)
      | None \<Rightarrow>
          (case find (\<lambda>kv. snd (Marshal F (snd kv) opts) \<noteq> None) (sort_key fst kvs) of
             Some kv \<Rightarrow> ([], snd (Marshal F (snd kv) opts))
           | None \<Rightarrow>
               (if kvs = [] then ''{}''
                else ''{'' @ comma_separated
                       (map (\<lambda>kv. quoted (fst kv) @ '':'' @ fst (Marshal F (snd kv) opts))
                          (sort_key fst kvs))
                     @ ''}'', None)))"
  proof (cases "snd (parseMarshalOptions opts)")
    case (Some e)
    then show ?thesis
      by (simp add: Marshal_options_error)
  next
    case None
    then obtain p where po: "parseMarshalOptions opts = (p, None)"
      by (cases "parseMarshalOptions opts") simp
    have e: "snd (Marshal F v opts) = value_error F p v" for v
      by (simp add: Marshal_value [OF po])
    have t: "fst (Marshal F v opts) = value_text F p v" if "value_error F p v = None" for v
      using that by (simp add: Marshal_value [OF po])
    show ?thesis
    proof (cases "find (\<lambda>kv. value_error F p (snd kv) \<noteq> None) (sort_key fst kvs)")
      case (Some kv)
      then have ne: "value_error F p (snd kv) \<noteq> None"
        by (auto simp: find_Some_iff)
      have ve: "value_error F p (GMap kvs) = value_error F p (snd kv)"
        unfolding value_map(1) Some by simp
      have lhs: "Marshal F (GMap kvs) opts = ([], value_error F p (snd kv))"
        using ne by (simp add: Marshal_value [OF po] ve)
      show ?thesis
        unfolding lhs None e Some by simp
    next
      case n: None
      then have ok: "value_error F p (snd kv) = None" if "kv \<in> set (sort_key fst kvs)" for kv
        using that by (cases kv) (auto simp: find_None_iff)
      have me: "map (\<lambda>kv. quoted (fst kv) @ '':'' @ fst (Marshal F (snd kv) opts))
                  (sort_key fst kvs)
        = map (\<lambda>kv. quoted (fst kv) @ '':'' @ value_text F p (snd kv)) (sort_key fst kvs)"
        by (rule map_cong) (simp_all only: t [OF ok])
      have ve: "value_error F p (GMap kvs) = None"
        unfolding value_map(1) n by simp
      have lhs: "Marshal F (GMap kvs) opts = (value_text F p (GMap kvs), None)"
        by (simp add: Marshal_value [OF po] ve)
      show ?thesis
        unfolding lhs None e n me value_map(2) [OF n] by simp
    qed
  qed
  show "sorted (map fst (sort_key fst kvs))"
    by (rule sorted_sort_key)
  show "set (sort_key fst kvs) = set kvs" "length (sort_key fst kvs) = length kvs"
    by simp_all
  show "sorted_wrt (<) (map fst (sort_key fst kvs))" if "distinct (map fst kvs)"
    using that sorted_sort_key [of fst kvs]
    by (simp add: strict_sorted_iff distinct_map_sort_key)
qed

theorem map_keys_sorted_witness:
  "Marshal strconv_FormatFloat (GMap [(''b'', GInt 1), (''a'', GInt 2)]) []
     = (''{'' @ [dquote] @ ''a'' @ [dquote] @ '':2,'' @ [dquote] @ ''b'' @ [dquote] @ '':1}'', None)
   \<and> Marshal strconv_FormatFloat
        (GMap [(''b'', GPtr (Some (GInt 1))), (''a'', GNamed ''main.T'' (Methods None None)
           (Methods None None) (GInt 2))]) []
     = (''{'' @ [dquote] @ ''a'' @ [dquote] @ '':2,'' @ [dquote] @ ''b'' @ [dquote] @ '':1}'', None)
   \<and> Marshal strconv_FormatFloat
        (GMap [(''b'', GFloat 0x7FF8000000000000), (''a'', GOther ''chan int'')]) []
     = ([], Some (UnsupportedTypeError ''chan int''))
   \<and> sort_key fst [(''b'', GInt 1), (''a'', GInt 2)] = [(''a'', GInt 2), (''b'', GInt 1)]
   \<and> distinct (map fst [(''b'', GInt 1), (''a'', GInt 2)])
   \<and> sorted_wrt (<) (map fst (sort_key fst [(''b'', GInt 1), (''a'', GInt 2)]))"
proof -
  have s: "sort_key fst [(''b'', x), (''a'', y)] = [(''a'', y), (''b'', x)]" for x y :: gvalue
    by (simp add: less_eq_char_def)
  have v: "Marshal strconv_FormatFloat (GInt 1) [] = (''1'', None)"
    "Marshal strconv_FormatFloat (GInt 2) [] = (''2'', None)"
    "Marshal strconv_FormatFloat (GPtr (Some (GInt 1))) [] = (''1'', None)"
    "Marshal strconv_FormatFloat (GNamed ''main.T'' (Methods None None) (Methods None None)
       (GInt 2)) [] = (''2'', None)"
    "Marshal strconv_FormatFloat (GOther ''chan int'') []
       = ([], Some (UnsupportedTypeError ''chan int''))"
    by (simp_all add: marshal_eval)
  have nan: "IsNaN 0x7FF8000000000000"
    by (simp add: IsNaN_def exp_field_def frac_field_def)
  have v': "Marshal strconv_FormatFloat (GFloat 0x7FF8000000000000) []
       = ([], Some (UnsupportedFloatValue 0x7FF8000000000000))"
    by (simp add: marshal_eval marshalFloat64_def nan)
  have q: "quoted ''a'' = [dquote] @ ''a'' @ [dquote]" "quoted ''b'' = [dquote] @ ''b'' @ [dquote]"
    by (simp_all add: quoted_def escape_def escape_byte_def bslash_def dquote_def byte_def)
  show ?thesis
    using map_keys_sorted [of strconv_FormatFloat "[(''b'', GInt 1), (''a'', GInt 2)]" "[]"]
      map_keys_sorted [of strconv_FormatFloat
        "[(''b'', GPtr (Some (GInt 1))), (''a'', GNamed ''main.T'' (Methods None None)
           (Methods None None) (GInt 2))]" "[]"]
      map_keys_sorted [of strconv_FormatFloat
        "[(''b'', GFloat 0x7FF8000000000000), (''a'', GOther ''chan int'')]" "[]"]
    by (simp add: s v v' q parseMarshalOptions_def)
qed

subsection \<open>Reading back an escaped string\<close>

lemma peek_remaining: "remaining s = c # r \<Longrightarrow> peek s = c"
  using remaining_Cons [of s c r] by (simp add: peek_def)

lemma next_remaining: "remaining s = c # r \<Longrightarrow> next s = (c, s\<lparr>cur := cur s + 1\<rparr>)"
  using remaining_Cons [of s c r] by (simp add: next_def)

lemma remaining_advance:
  "remaining s = a @ b \<Longrightarrow> n = length a \<Longrightarrow> remaining (s\<lparr>cur := cur s + n\<rparr>) = b"
  using remaining_append [of s a b] by simp

lemma parseString_slow_quote:
  assumes "remaining s = dquote # r"
  shows "parseString_slow buf s = Inr (buf, s\<lparr>cur := cur s + 1\<rparr>)"
  by (subst parseString_slow.simps)
    (simp add: next_remaining [OF assms] dquote_def byte_def)

lemma parseString_slow_plain:
  assumes "remaining s = c # r" and "plain_byte c"
  shows "parseString_slow buf s = parseString_slow (buf @ [c]) (s\<lparr>cur := cur s + 1\<rparr>)"
proof -
  have "c \<noteq> CHR 0x00" "\<not> byte c \<le> 0x1F" "c \<noteq> dquote" "c \<noteq> bslash"
    using assms(2) by (auto simp: plain_byte_iff byte_def)
  then show ?thesis
    by (subst parseString_slow.simps) (simp add: next_remaining [OF assms(1)])
qed

text \<open>The escapes of two characters and the byte each stands for.\<close>

lemma parseString_slow_escape:
  assumes "remaining s = bslash # x # r"
    and "(x, c) \<in> {(dquote, dquote), (bslash, bslash), (CHR ''/'', CHR ''/''),
      (CHR ''b'', CHR 0x08), (CHR ''f'', CHR 0x0C), (CHR ''n'', CHR 0x0A), (CHR ''r'', CHR 0x0D),
      (CHR ''t'', CHR 0x09)}"
  shows "parseString_slow buf s = parseString_slow (buf @ [c]) (s\<lparr>cur := cur s + 2\<rparr>)"
proof -
  define s1 where "s1 = s\<lparr>cur := cur s + 1\<rparr>"
  have nx: "next s = (bslash, s1)"
    using next_remaining [OF assms(1)] by (simp add: s1_def)
  have r1: "remaining s1 = x # r"
    using remaining_Cons(3) [OF assms(1)] by (simp add: s1_def)
  have pk: "peek s1 = x" and lt: "\<not> cur s1 \<ge> length (data s1)"
    using peek_remaining [OF r1] remaining_Cons(1) [OF r1] by simp_all
  have s2: "s1\<lparr>cur := Suc (cur s1)\<rparr> = s\<lparr>cur := cur s + 2\<rparr>"
    by (simp add: s1_def)
  show ?thesis
    using assms(2)
    by (subst parseString_slow.simps)
      (auto simp: nx pk lt s2 Let_def bslash_def dquote_def byte_def)
qed

lemma parseString_slow_unicode:
  assumes "remaining s = bslash # CHR ''u'' # h @ r" and "length h = 4"
    and "ParseUint_16_16 h = Some v"
  shows "parseString_slow buf s = parseString_slow (buf @ string_of_rune v) (s\<lparr>cur := cur s + 6\<rparr>)"
proof -
  define s1 where "s1 = s\<lparr>cur := cur s + 1\<rparr>"
  define s2 where "s2 = s1\<lparr>cur := Suc (cur s1)\<rparr>"
  have nx: "next s = (bslash, s1)"
    using next_remaining [OF assms(1)] by (simp add: s1_def)
  have r1: "remaining s1 = CHR ''u'' # h @ r"
    using remaining_Cons(3) [OF assms(1)] by (simp add: s1_def)
  have pk: "peek s1 = CHR ''u''" and lt: "\<not> cur s1 \<ge> length (data s1)"
    using peek_remaining [OF r1] remaining_Cons(1) [OF r1] by simp_all
  have r2: "remaining s2 = h @ r"
    using remaining_Cons(3) [OF r1] by (simp add: s2_def)
  then have dr: "drop (cur s2) (data s2) = h @ r"
    by (simp add: remaining_def)
  have "length (drop (cur s2) (data s2)) \<ge> 4"
    unfolding dr using assms(2) by simp
  then have len: "\<not> length (data s2) < cur s2 + 4"
    by simp
  have "take 4 (drop (cur s2) (data s2)) = h"
    unfolding dr using assms(2) by simp
  then have pu: "parseUnicode s2 = Inr (v, s2\<lparr>cur := cur s2 + 4\<rparr>)"
    using len assms(3) by (simp add: parseUnicode_def Let_def)
  have s3: "s2\<lparr>cur := cur s2 + 4\<rparr> = s\<lparr>cur := cur s + 6\<rparr>"
    by (simp add: s2_def s1_def)
  show ?thesis
    by (subst parseString_slow.simps)
      (simp add: nx pk lt s2_def [symmetric] pu s3 Let_def bslash_def dquote_def byte_def)
qed

lemma ParseUint_control:
  assumes "byte c < 0x20"
  shows "ParseUint_16_16 (''00'' @ [hex_lower (byte c div 16), hex_lower (byte c mod 16)]) = Some (byte c)"
proof -
  define n where "n = byte c"
  have n: "n < 32"
    using assms by (simp add: n_def)
  have d: "hexDigit (hex_lower (n div 16)) = Some (n div 16)"
    "hexDigit (hex_lower (n mod 16)) = Some (n mod 16)"
    using n by (auto simp: hexDigit_def hex_lower_def byte_def)
  have "n div 16 * 16 + n mod 16 = n"
    by simp
  then show ?thesis
    using d n unfolding n_def [symmetric]
    by (simp add: ParseUint_16_16_def hexDigit_def byte_def)
qed

lemma escape_byte_cases:
  obtains (plain) "plain_byte c" "escape_byte c = [c]"
  | (short) x where "escape_byte c = [bslash, x]"
      "(x, c) \<in> {(dquote, dquote), (bslash, bslash), (CHR ''/'', CHR ''/''),
        (CHR ''b'', CHR 0x08), (CHR ''f'', CHR 0x0C), (CHR ''n'', CHR 0x0A), (CHR ''r'', CHR 0x0D),
        (CHR ''t'', CHR 0x09)}"
  | (control) "byte c < 0x20"
      "escape_byte c = bslash # CHR ''u'' # (''00'' @ [hex_lower (byte c div 16), hex_lower (byte c mod 16)])"
proof (cases "plain_byte c")
  case True
  then show ?thesis using plain by (simp add: plain_byte_def)
next
  case False
  show ?thesis
  proof (cases "c = CHR 0x08 \<or> c = CHR 0x0C \<or> c = CHR 0x0A \<or> c = CHR 0x0D \<or> c = CHR 0x09
      \<or> c = bslash \<or> c = dquote")
    case True
    then show ?thesis
      using short by (auto simp: escape_byte_def bslash_def dquote_def)
  next
    case nb: False
    then have "byte c < 0x20"
      using False by (auto simp: plain_byte_iff)
    then show ?thesis
      using control nb by (simp add: escape_byte_def)
  qed
qed

lemma parseString_slow_escaped:
  assumes "remaining s = escape str @ dquote # rest"
  shows "parseString_slow buf s = Inr (buf @ str, s\<lparr>cur := cur s + length (escape str) + 1\<rparr>)"
  using assms
proof (induction str arbitrary: buf s)
  case Nil
  then show ?case
    using parseString_slow_quote [of s rest buf] by (simp add: escape_def)
next
  case (Cons c str)
  let ?tail = "escape str @ dquote # rest"
  have r: "remaining s = escape_byte c @ ?tail"
    using Cons.prems by (simp add: escape_Cons)
  show ?case
  proof (cases c rule: escape_byte_cases)
    case plain
    define s1 where "s1 = s\<lparr>cur := cur s + 1\<rparr>"
    have r0: "remaining s = c # ?tail"
      using r plain by simp
    have r1: "remaining s1 = ?tail"
      using remaining_Cons(3) [OF r0] by (simp add: s1_def)
    have "parseString_slow buf s = parseString_slow (buf @ [c]) s1"
      using parseString_slow_plain [OF r0 plain(1)] by (simp add: s1_def)
    also have "\<dots> = Inr ((buf @ [c]) @ str, s1\<lparr>cur := cur s1 + length (escape str) + 1\<rparr>)"
      by (rule Cons.IH [OF r1])
    finally show ?thesis
      using plain by (simp add: s1_def escape_Cons)
  next
    case (short x)
    define s1 where "s1 = s\<lparr>cur := cur s + 2\<rparr>"
    have r0: "remaining s = bslash # x # ?tail"
      using r short by simp
    have r1: "remaining s1 = ?tail"
      using remaining_advance [of s "[bslash, x]" ?tail 2] r0 by (simp add: s1_def)
    have "parseString_slow buf s = parseString_slow (buf @ [c]) s1"
      using parseString_slow_escape [OF r0 short(2)] by (simp add: s1_def)
    also have "\<dots> = Inr ((buf @ [c]) @ str, s1\<lparr>cur := cur s1 + length (escape str) + 1\<rparr>)"
      by (rule Cons.IH [OF r1])
    finally show ?thesis
      using short by (simp add: s1_def escape_Cons)
  next
    case control
    define h where "h = ''00'' @ [hex_lower (byte c div 16), hex_lower (byte c mod 16)]"
    define s1 where "s1 = s\<lparr>cur := cur s + 6\<rparr>"
    have r0: "remaining s = bslash # CHR ''u'' # h @ ?tail"
      using r control by (simp add: h_def)
    have r1: "remaining s1 = ?tail"
      using remaining_advance [of s "bslash # CHR ''u'' # h" ?tail 6] r0
      by (simp add: s1_def h_def)
    have v: "ParseUint_16_16 h = Some (byte c)"
      unfolding h_def by (rule ParseUint_control [OF control(1)])
    have sr: "string_of_rune (byte c) = [c]"
      using control(1) by (simp add: string_of_rune_def)
    have "parseString_slow buf s = parseString_slow (buf @ [c]) s1"
      using parseString_slow_unicode [OF r0 _ v, of buf] by (simp add: s1_def h_def sr)
    also have "\<dots> = Inr ((buf @ [c]) @ str, s1\<lparr>cur := cur s1 + length (escape str) + 1\<rparr>)"
      by (rule Cons.IH [OF r1])
    finally show ?thesis
      using control by (simp add: s1_def escape_Cons)
  qed
qed

lemma parseString_fast_plain:
  assumes "remaining s = str @ dquote # rest" and "list_all plain_byte str" and "start \<le> cur s"
  shows "parseString_fast start s
    = Return (Inr (take (cur s + length str - start) (drop start (data s)),
                   s\<lparr>cur := cur s + length str + 1\<rparr>))"
  using assms
proof (induction str arbitrary: s)
  case Nil
  then have "cur s < length (data s)" "data s ! cur s = dquote"
    using remaining_Cons [of s dquote rest] by simp_all
  then show ?case
    by (subst parseString_fast.simps) (simp add: Let_def dquote_def bslash_def byte_def)
next
  case (Cons c str)
  define s1 where "s1 = s\<lparr>cur := cur s + 1\<rparr>"
  have r0: "remaining s = c # str @ dquote # rest"
    using Cons.prems by simp
  have c: "cur s < length (data s)" "data s ! cur s = c"
    using remaining_Cons [OF r0] by simp_all
  have pc: "\<not> byte c \<le> 0x1F" "c \<noteq> bslash" "c \<noteq> dquote"
    using Cons.prems(2) by (simp_all add: plain_byte_iff)
  have r1: "remaining s1 = str @ dquote # rest"
    using remaining_Cons(3) [OF r0] by (simp add: s1_def)
  have "parseString_fast start s = parseString_fast start s1"
    using c pc by (subst parseString_fast.simps) (simp add: Let_def s1_def)
  also have "\<dots> = Return (Inr (take (cur s1 + length str - start) (drop start (data s1)),
                   s1\<lparr>cur := cur s1 + length str + 1\<rparr>))"
    using Cons.IH [OF r1] Cons.prems by (simp add: s1_def)
  finally show ?case
    by (simp add: s1_def)
qed

lemma parseString_fast_escaped:
  assumes "remaining s = pre @ bslash # r" and "list_all plain_byte pre"
  shows "parseString_fast start s = Escaped"
  using assms
proof (induction pre arbitrary: s)
  case Nil
  then have "cur s < length (data s)" "data s ! cur s = bslash"
    using remaining_Cons [of s bslash r] by simp_all
  then show ?case
    by (subst parseString_fast.simps) (simp add: Let_def bslash_def byte_def)
next
  case (Cons c pre)
  define s1 where "s1 = s\<lparr>cur := cur s + 1\<rparr>"
  have r0: "remaining s = c # pre @ bslash # r"
    using Cons.prems by simp
  have c: "cur s < length (data s)" "data s ! cur s = c"
    using remaining_Cons [OF r0] by simp_all
  have pc: "\<not> byte c \<le> 0x1F" "c \<noteq> bslash" "c \<noteq> dquote"
    using Cons.prems(2) by (simp_all add: plain_byte_iff)
  have r1: "remaining s1 = pre @ bslash # r"
    using remaining_Cons(3) [OF r0] by (simp add: s1_def)
  have "parseString_fast start s = parseString_fast start s1"
    using c pc by (subst parseString_fast.simps) (simp add: Let_def s1_def)
  then show ?case
    using Cons.IH [OF r1] Cons.prems by simp
qed

lemma escape_first_backslash:
  assumes "\<not> list_all plain_byte str"
  shows "\<exists>pre r. escape str = pre @ bslash # r \<and> list_all plain_byte pre"
  using assms
proof (induction str)
  case Nil
  then show ?case by simp
next
  case (Cons c str)
  show ?case
  proof (cases c rule: escape_byte_cases)
    case plain
    then obtain pre r where "escape str = pre @ bslash # r" "list_all plain_byte pre"
      using Cons by auto
    then have "escape (c # str) = (c # pre) @ bslash # r \<and> list_all plain_byte (c # pre)"
      using plain by (simp add: escape_Cons)
    then show ?thesis by blast
  next
    case (short x)
    then have "escape (c # str) = [] @ bslash # (x # escape str) \<and> list_all plain_byte []"
      by (simp add: escape_Cons)
    then show ?thesis by blast
  next
    case control
    then have "escape (c # str) = [] @ bslash # (tl (escape_byte c) @ escape str)
        \<and> list_all plain_byte []"
      by (simp add: escape_Cons)
    then show ?thesis by blast
  qed
qed

lemma parseString_quoted:
  assumes "remaining s = quoted str @ rest"
  shows "parseString s = Inr (str, s\<lparr>cur := cur s + length (quoted str)\<rparr>)"
proof -
  define s1 where "s1 = s\<lparr>cur := cur s + 1\<rparr>"
  have r0: "remaining s = dquote # escape str @ dquote # rest"
    using assms by (simp add: quoted_def)
  have pk: "peek s = dquote"
    by (rule peek_remaining [OF r0])
  have r1: "remaining s1 = escape str @ dquote # rest"
    using remaining_Cons(3) [OF r0] by (simp add: s1_def)
  have len: "length (quoted str) = length (escape str) + 2"
    by (simp add: quoted_def)
  show ?thesis
  proof (cases "list_all plain_byte str")
    case True
    then have e: "escape str = str"
      by (rule escape_plain)
    have "drop (cur s1) (data s1) = str @ dquote # rest"
      using r1 e by (simp add: remaining_def)
    then have tk: "take (length str) (drop (cur s1) (data s1)) = str"
      by simp
    have "parseString_fast (cur s1) s1
        = Return (Inr (take (cur s1 + length str - cur s1) (drop (cur s1) (data s1)),
                   s1\<lparr>cur := cur s1 + length str + 1\<rparr>))"
      using parseString_fast_plain [of s1 str rest "cur s1"] r1 e True by simp
    then show ?thesis
      using pk tk unfolding parseString_def Let_def s1_def [symmetric]
      by (simp add: s1_def len e)
  next
    case False
    then obtain pre r where "escape str = pre @ bslash # r" "list_all plain_byte pre"
      using escape_first_backslash by blast
    then have "parseString_fast (cur s1) s1 = Escaped"
      using parseString_fast_escaped [of s1 pre "r @ dquote # rest" "cur s1"] r1 by simp
    moreover have "parseString_slow [] s1
        = Inr ([] @ str, s1\<lparr>cur := cur s1 + length (escape str) + 1\<rparr>)"
      by (rule parseString_slow_escaped [OF r1])
    ultimately show ?thesis
      using pk unfolding parseString_def Let_def s1_def [symmetric]
      by (simp add: s1_def len)
  qed
qed

subsection \<open>Reading back the text of a value\<close>

lemma IsEOF_remaining: "IsEOF s \<longleftrightarrow> remaining s = []"
  by (simp add: IsEOF_def remaining_Nil)

lemma skipWhitespace_noop: "remaining s = c # r \<Longrightarrow> \<not> is_ws c \<Longrightarrow> skipWhitespace s = s"
  using remaining_Cons [of s c r]
  by (subst skipWhitespace.simps) (simp add: is_ws_def)

lemma seqMatches_drop: "drop i d = seq @ rest \<Longrightarrow> seqMatches d i seq"
proof (induction seq arbitrary: i)
  case Nil
  show ?case by simp
next
  case (Cons b bs)
  have lt: "i < length d"
    using Cons.prems by (auto intro: ccontr)
  then have "drop i d = d ! i # drop (Suc i) d"
    by (simp add: Cons_nth_drop_Suc)
  then have "d ! i = b" "drop (Suc i) d = bs @ rest"
    using Cons.prems by simp_all
  then show ?case
    using Cons.IH [of "Suc i"] by simp
qed

lemma skipSequence_prefix:
  assumes "remaining s = seq @ rest" and "seq \<noteq> []"
  shows "skipSequence s seq = (True, s\<lparr>cur := cur s + length seq\<rparr>)"
proof -
  have "length (drop (cur s) (data s)) = length seq + length rest"
    using assms by (simp add: remaining_def)
  then have "cur s + length seq \<le> length (data s)"
    using assms(2) by (cases seq) simp_all
  moreover have "seqMatches (data s) (cur s) seq"
    using assms by (auto simp: remaining_def intro: seqMatches_drop)
  ultimately show ?thesis
    by (simp add: skipSequence_def)
qed

lemma ReadValue_null:
  assumes "remaining s = ''null'' @ rest"
  shows "ReadValue P s = Inr (GNil, s\<lparr>cur := cur s + 4\<rparr>)"
proof -
  have r: "remaining s = CHR ''n'' # ''ull'' @ rest"
    using assms by simp
  have ws: "skipWhitespace s = s"
    by (rule skipWhitespace_noop [OF r]) (simp add: is_ws_def)
  show ?thesis
    using skipSequence_prefix [OF assms]
    by (subst ReadValue.simps)
      (simp add: ws IsEOF_remaining r peek_remaining [OF r] dquote_def)
qed

lemma ReadValue_true:
  assumes "remaining s = ''true'' @ rest"
  shows "ReadValue P s = Inr (GBool True, s\<lparr>cur := cur s + 4\<rparr>)"
proof -
  have r: "remaining s = CHR ''t'' # ''rue'' @ rest"
    using assms by simp
  have ws: "skipWhitespace s = s"
    by (rule skipWhitespace_noop [OF r]) (simp add: is_ws_def)
  show ?thesis
    using skipSequence_prefix [OF assms]
    by (subst ReadValue.simps)
      (simp add: ws IsEOF_remaining r peek_remaining [OF r] dquote_def)
qed

lemma ReadValue_false:
  assumes "remaining s = ''false'' @ rest"
  shows "ReadValue P s = Inr (GBool False, s\<lparr>cur := cur s + 5\<rparr>)"
proof -
  have r: "remaining s = CHR ''f'' # ''alse'' @ rest"
    using assms by simp
  have ws: "skipWhitespace s = s"
    by (rule skipWhitespace_noop [OF r]) (simp add: is_ws_def)
  show ?thesis
    using skipSequence_prefix [OF assms]
    by (subst ReadValue.simps)
      (simp add: ws IsEOF_remaining r peek_remaining [OF r] dquote_def)
qed

lemma ReadValue_string:
  assumes "remaining s = quoted str @ rest"
  shows "ReadValue P s = Inr (GString str, s\<lparr>cur := cur s + length (quoted str)\<rparr>)"
proof -
  have r: "remaining s = dquote # escape str @ [dquote] @ rest"
    using assms by (simp add: quoted_def)
  have ws: "skipWhitespace s = s"
    by (rule skipWhitespace_noop [OF r]) (simp add: is_ws_def dquote_def)
  have ne: "dquote \<noteq> CHR ''{''" "dquote \<noteq> CHR ''[''"
    by (simp_all add: dquote_def)
  show ?thesis
    by (subst ReadValue.simps)
      (simp add: ws IsEOF_remaining r peek_remaining [OF r] ne parseString_quoted [OF assms])
qed

lemma is_digit_not_punct:
  "is_digit c \<Longrightarrow> c \<notin> {CHR ''{'', CHR ''['', dquote, CHR ''t'', CHR ''f'', CHR ''n'', CHR '' '',
     CHR 0x09, CHR 0x0A, CHR 0x0D}"
  by (auto simp: is_digit_def byte_def dquote_def)

lemma json_number_head:
  assumes "json_number lit"
  obtains c r where "lit = c # r" and "c = CHR ''-'' \<or> is_digit c"
proof -
  obtain sg ip fp ep where lit: "lit = sg @ ip @ fp @ ep"
    and parts: "sign_part sg" "int_part ip"
    using assms unfolding json_number_def by blast
  obtain d ds where ip: "ip = d # ds" and d: "is_digit d"
    using parts(2) by (cases ip) (auto simp: int_part_def is_digit_def byte_def)
  show ?thesis
    using parts(1) that [of "hd lit" "tl lit"] lit ip d
    by (auto simp: sign_part_def)
qed

lemma ReadValue_number:
  assumes "json_number lit" and "number_end rest" and "remaining s = lit @ rest"
    and "P lit = (x, None)"
  shows "ReadValue P s = Inr (GFloat x, s\<lparr>cur := cur s + length lit\<rparr>)"
proof -
  obtain c r where lit: "lit = c # r" and c: "c = CHR ''-'' \<or> is_digit c"
    using assms(1) by (rule json_number_head)
  have r: "remaining s = c # r @ rest"
    using assms(3) lit by simp
  have c': "c \<notin> {CHR ''{'', CHR ''['', dquote, CHR ''t'', CHR ''f'', CHR ''n'', CHR '' '',
     CHR 0x09, CHR 0x0A, CHR 0x0D}"
  proof (cases "is_digit c")
    case True
    then show ?thesis by (rule is_digit_not_punct)
  next
    case False
    then have "c = CHR ''-''" using c by simp
    then show ?thesis by (simp add: dquote_def)
  qed
  have ws: "skipWhitespace s = s"
    by (rule skipWhitespace_noop [OF r]) (use c' in \<open>auto simp: is_ws_def\<close>)
  obtain sg ip fp ep where l: "lit = sg @ ip @ fp @ ep"
    and parts: "sign_part sg" "int_part ip" "frac_part fp" "exp_part ep"
    using assms(1) unfolding json_number_def by blast
  have "remaining s = sg @ ip @ fp @ ep @ rest"
    using assms(3) l by simp
  then have pn: "parseNumber P s = Inr (x, s\<lparr>cur := cur s + length lit\<rparr>)"
    using parseNumber_parts [OF _ parts assms(2), of s P] assms(4) l
    by (simp add: float_outcome_def)
  have pk: "peek s = c"
    by (rule peek_remaining [OF r])
  have ne: "c \<noteq> CHR ''{''" "c \<noteq> CHR ''[''" "c \<noteq> dquote" "c \<noteq> CHR ''t''" "c \<noteq> CHR ''f''"
    "c \<noteq> CHR ''n''"
    using c' by auto
  show ?thesis
    using c by (subst ReadValue.simps) (simp add: ws IsEOF_remaining r pk ne pn)
qed

lemma reads_asD:
  "reads_as P t w \<Longrightarrow> remaining s = t @ rest \<Longrightarrow> number_end rest
   \<Longrightarrow> ReadValue P s = Inr (w, s\<lparr>cur := cur s + length t\<rparr>)"
  unfolding reads_as_def by blast

lemma reads_as_head:
  assumes "reads_as P t w" and "remaining s = t @ rest"
  shows "skipWhitespace s = s" and "remaining s \<noteq> []"
proof -
  obtain c r where t: "t = c # r" and c: "\<not> is_ws c"
    using assms(1) unfolding reads_as_def by (cases t) auto
  have r: "remaining s = c # r @ rest"
    using assms(2) t by simp
  show "skipWhitespace s = s"
    by (rule skipWhitespace_noop [OF r c])
  show "remaining s \<noteq> []"
    using r by simp
qed

lemma number_end_punct [simp]:
  "number_end (CHR '','' # r)" "number_end (CHR '']'' # r)" "number_end (CHR ''}'' # r)"
  "number_end []"
  by (simp_all add: number_end_def is_digit_def byte_def)

lemma skipWhitespace_punct:
  assumes "remaining s = c # r" and "c \<in> {CHR '','', CHR '']'', CHR ''}'', CHR '':'', dquote}"
  shows "skipWhitespace s = s"
  by (rule skipWhitespace_noop [OF assms(1)]) (use assms(2) in \<open>auto simp: is_ws_def dquote_def\<close>)

lemma readArrayLoop_elements:
  assumes "list_all (\<lambda>tw. reads_as P (fst tw) (snd tw)) ((t0, w0) # tws)"
    and "remaining s = t0 @ concat (map (\<lambda>tw. '','' @ fst tw) tws) @ '']'' @ rest"
  shows "readArrayLoop P arr s
    = Inr (GSlice (arr @ w0 # map snd tws),
           s\<lparr>cur := cur s + length (t0 @ concat (map (\<lambda>tw. '','' @ fst tw) tws) @ '']'')\<rparr>)"
  using assms
proof (induction tws arbitrary: t0 w0 arr s)
  case Nil
  define s1 where "s1 = s\<lparr>cur := cur s + length t0\<rparr>"
  have ra: "reads_as P t0 w0"
    using Nil.prems(1) by simp
  have r: "remaining s = t0 @ CHR '']'' # rest"
    using Nil.prems(2) by simp
  have ne: "\<not> IsEOF s"
    using reads_as_head(2) [OF ra r] by (simp add: IsEOF_remaining)
  have rv: "ReadValue P s = Inr (w0, s1)"
    using reads_asD [OF ra r] by (simp add: s1_def)
  have r1: "remaining s1 = CHR '']'' # rest"
    using remaining_append [OF r] by (simp add: s1_def)
  have ws1: "skipWhitespace s1 = s1"
    by (rule skipWhitespace_punct [OF r1]) simp
  have ne1: "\<not> IsEOF s1"
    using r1 by (simp add: IsEOF_remaining)
  have sb: "skipByte s1 CHR '']'' = (True, s\<lparr>cur := cur s + length (t0 @ '']'')\<rparr>)"
    using skipByte_Cons [OF r1] by (simp add: s1_def)
  show ?case
    by (subst readArrayLoop.simps) (simp add: ne rv ws1 ne1 sb)
next
  case (Cons tw tws)
  define tail where "tail = concat (map (\<lambda>tw. '','' @ fst tw) tws) @ '']'' @ rest"
  define s1 where "s1 = s\<lparr>cur := cur s + length t0\<rparr>"
  define s2 where "s2 = s1\<lparr>cur := cur s1 + 1\<rparr>"
  have ra: "reads_as P t0 w0"
    and ras: "list_all (\<lambda>tw. reads_as P (fst tw) (snd tw)) ((fst tw, snd tw) # tws)"
    using Cons.prems(1) by simp_all
  have r: "remaining s = t0 @ CHR '','' # fst tw @ tail"
    using Cons.prems(2) by (simp add: tail_def)
  have ne: "\<not> IsEOF s"
    using reads_as_head(2) [OF ra r] by (simp add: IsEOF_remaining)
  have rv: "ReadValue P s = Inr (w0, s1)"
    using reads_asD [OF ra r] by (simp add: s1_def)
  have r1: "remaining s1 = CHR '','' # fst tw @ tail"
    using remaining_append [OF r] by (simp add: s1_def)
  have ws1: "skipWhitespace s1 = s1"
    by (rule skipWhitespace_punct [OF r1]) simp
  have ne1: "\<not> IsEOF s1"
    using r1 by (simp add: IsEOF_remaining)
  have sb: "skipByte s1 CHR '']'' = (False, s1)" "skipByte s1 CHR '','' = (True, s2)"
    using skipByte_Cons [OF r1] by (simp_all add: s2_def)
  have r2: "remaining s2 = fst tw @ tail"
    using remaining_Cons(3) [OF r1] by (simp add: s2_def)
  have "reads_as P (fst tw) (snd tw)"
    using ras by simp
  then have ws2: "skipWhitespace s2 = s2"
    using r2 by (rule reads_as_head(1))
  have "readArrayLoop P (arr @ [w0]) s2
    = Inr (GSlice ((arr @ [w0]) @ snd tw # map snd tws),
           s2\<lparr>cur := cur s2 + length (fst tw @ concat (map (\<lambda>tw. '','' @ fst tw) tws) @ '']'')\<rparr>)"
    by (rule Cons.IH [OF ras]) (use r2 in \<open>simp add: tail_def\<close>)
  moreover have "s2\<lparr>cur := cur s2 + length (fst tw @ concat (map (\<lambda>tw. '','' @ fst tw) tws) @ '']'')\<rparr>
    = s\<lparr>cur := cur s + length (t0 @ concat (map (\<lambda>tw. '','' @ fst tw) (tw # tws)) @ '']'')\<rparr>"
    by (simp add: s2_def s1_def)
  ultimately have rec: "readArrayLoop P (arr @ [w0]) s2
    = Inr (GSlice (arr @ w0 # map snd (tw # tws)),
           s\<lparr>cur := cur s + length (t0 @ concat (map (\<lambda>tw. '','' @ fst tw) (tw # tws)) @ '']'')\<rparr>)"
    by simp
  show ?case
    by (subst readArrayLoop.simps) (simp only: ne rv ws1 ne1 sb ws2 rec if_False if_True
        sum.case prod.case Let_def fst_conv snd_conv not_False_eq_True not_True_eq_False)
qed

lemma store_all_Cons: "store_all m (kv # ms) = store_all (AList.update (fst kv) (snd kv) m) ms"
  by (simp add: store_all_def)

lemma store_all_Nil: "store_all m [] = m"
  by (simp add: store_all_def)

lemma readObjectLoop_members:
  assumes "list_all (\<lambda>e. reads_as P (fst (snd e)) (snd (snd e))) ((k0, t0, w0) # es)"
    and "remaining s = quoted k0 @ '':'' @ t0
           @ concat (map (\<lambda>e. '','' @ quoted (fst e) @ '':'' @ fst (snd e)) es) @ ''}'' @ rest"
  shows "readObjectLoop P m s
    = Inr (GMap (store_all m ((k0, w0) # map (\<lambda>e. (fst e, snd (snd e))) es)),
           s\<lparr>cur := cur s + length (quoted k0 @ '':'' @ t0
             @ concat (map (\<lambda>e. '','' @ quoted (fst e) @ '':'' @ fst (snd e)) es) @ ''}'')\<rparr>)"
  using assms
proof (induction es arbitrary: k0 t0 w0 m s)
  case Nil
  define s1 where "s1 = s\<lparr>cur := cur s + length (quoted k0)\<rparr>"
  define s2 where "s2 = s1\<lparr>cur := cur s1 + 1\<rparr>"
  define s3 where "s3 = s2\<lparr>cur := cur s2 + length t0\<rparr>"
  have ra: "reads_as P t0 w0"
    using Nil.prems(1) by simp
  have r: "remaining s = quoted k0 @ CHR '':'' # t0 @ CHR ''}'' # rest"
    using Nil.prems(2) by simp
  have r': "remaining s = dquote # escape k0 @ dquote # CHR '':'' # t0 @ CHR ''}'' # rest"
    using r by (simp add: quoted_def)
  have ws: "skipWhitespace s = s"
    by (rule skipWhitespace_punct [OF r']) simp
  have ne: "\<not> IsEOF s"
    using r' by (simp add: IsEOF_remaining)
  have ps: "parseString s = Inr (k0, s1)"
    using parseString_quoted [OF r] by (simp add: s1_def)
  have r1: "remaining s1 = CHR '':'' # t0 @ CHR ''}'' # rest"
    using remaining_append [OF r] by (simp add: s1_def)
  have ws1: "skipWhitespace s1 = s1"
    by (rule skipWhitespace_punct [OF r1]) simp
  have ne1: "\<not> IsEOF s1"
    using r1 by (simp add: IsEOF_remaining)
  have sb1: "skipByte s1 CHR '':'' = (True, s2)"
    using skipByte_Cons [OF r1] by (simp add: s2_def)
  have r2: "remaining s2 = t0 @ CHR ''}'' # rest"
    using remaining_Cons(3) [OF r1] by (simp add: s2_def)
  have rv: "ReadValue P s2 = Inr (w0, s3)"
    using reads_asD [OF ra r2] by (simp add: s3_def)
  have r3: "remaining s3 = CHR ''}'' # rest"
    using remaining_append [OF r2] by (simp add: s3_def)
  have ws3: "skipWhitespace s3 = s3"
    by (rule skipWhitespace_punct [OF r3]) simp
  have ne3: "\<not> IsEOF s3"
    using r3 by (simp add: IsEOF_remaining)
  have sb3: "skipByte s3 CHR ''}''
    = (True, s\<lparr>cur := cur s + length (quoted k0 @ '':'' @ t0 @ ''}'')\<rparr>)"
    using skipByte_Cons [OF r3] by (simp add: s3_def s2_def s1_def)
  have st: "store_all m [(k0, w0)] = AList.update k0 w0 m"
    by (simp add: store_all_def)
  show ?case
    by (subst readObjectLoop.simps) (simp add: ws ne ps ws1 ne1 sb1 rv ws3 ne3 sb3 st)
next
  case (Cons e es)
  define tail where
    "tail = concat (map (\<lambda>e. '','' @ quoted (fst e) @ '':'' @ fst (snd e)) es) @ ''}'' @ rest"
  define nxt where "nxt = quoted (fst e) @ '':'' @ fst (snd e) @ tail"
  define s1 where "s1 = s\<lparr>cur := cur s + length (quoted k0)\<rparr>"
  define s2 where "s2 = s1\<lparr>cur := cur s1 + 1\<rparr>"
  define s3 where "s3 = s2\<lparr>cur := cur s2 + length t0\<rparr>"
  define s4 where "s4 = s3\<lparr>cur := cur s3 + 1\<rparr>"
  have ra: "reads_as P t0 w0"
    and ras: "list_all (\<lambda>e. reads_as P (fst (snd e)) (snd (snd e)))
      ((fst e, fst (snd e), snd (snd e)) # es)"
    using Cons.prems(1) by simp_all
  have r: "remaining s = quoted k0 @ CHR '':'' # t0 @ CHR '','' # nxt"
    using Cons.prems(2) by (simp add: tail_def nxt_def)
  have r': "remaining s = dquote # escape k0 @ dquote # CHR '':'' # t0 @ CHR '','' # nxt"
    using r by (simp add: quoted_def)
  have ws: "skipWhitespace s = s"
    by (rule skipWhitespace_punct [OF r']) simp
  have ne: "\<not> IsEOF s"
    using r' by (simp add: IsEOF_remaining)
  have ps: "parseString s = Inr (k0, s1)"
    using parseString_quoted [OF r] by (simp add: s1_def)
  have r1: "remaining s1 = CHR '':'' # t0 @ CHR '','' # nxt"
    using remaining_append [OF r] by (simp add: s1_def)
  have ws1: "skipWhitespace s1 = s1"
    by (rule skipWhitespace_punct [OF r1]) simp
  have ne1: "\<not> IsEOF s1"
    using r1 by (simp add: IsEOF_remaining)
  have sb1: "skipByte s1 CHR '':'' = (True, s2)"
    using skipByte_Cons [OF r1] by (simp add: s2_def)
  have r2: "remaining s2 = t0 @ CHR '','' # nxt"
    using remaining_Cons(3) [OF r1] by (simp add: s2_def)
  have rv: "ReadValue P s2 = Inr (w0, s3)"
    using reads_asD [OF ra r2] by (simp add: s3_def)
  have r3: "remaining s3 = CHR '','' # nxt"
    using remaining_append [OF r2] by (simp add: s3_def)
  have ws3: "skipWhitespace s3 = s3"
    by (rule skipWhitespace_punct [OF r3]) simp
  have ne3: "\<not> IsEOF s3"
    using r3 by (simp add: IsEOF_remaining)
  have sb3: "skipByte s3 CHR ''}'' = (False, s3)" "skipByte s3 CHR '','' = (True, s4)"
    using skipByte_Cons [OF r3] by (simp_all add: s4_def)
  have r4: "remaining s4 = nxt"
    using remaining_Cons(3) [OF r3] by (simp add: s4_def)
  have "readObjectLoop P (AList.update k0 w0 m) s4
    = Inr (GMap (store_all (AList.update k0 w0 m)
                  ((fst e, snd (snd e)) # map (\<lambda>e. (fst e, snd (snd e))) es)),
           s4\<lparr>cur := cur s4 + length (quoted (fst e) @ '':'' @ fst (snd e)
             @ concat (map (\<lambda>e. '','' @ quoted (fst e) @ '':'' @ fst (snd e)) es) @ ''}'')\<rparr>)"
    by (rule Cons.IH [OF ras]) (use r4 in \<open>simp add: nxt_def tail_def\<close>)
  moreover have "s4\<lparr>cur := cur s4 + length (quoted (fst e) @ '':'' @ fst (snd e)
             @ concat (map (\<lambda>e. '','' @ quoted (fst e) @ '':'' @ fst (snd e)) es) @ ''}'')\<rparr>
    = s\<lparr>cur := cur s + length (quoted k0 @ '':'' @ t0
             @ concat (map (\<lambda>e. '','' @ quoted (fst e) @ '':'' @ fst (snd e)) (e # es)) @ ''}'')\<rparr>"
    by (simp add: s4_def s3_def s2_def s1_def)
  ultimately have rec: "readObjectLoop P (AList.update k0 w0 m) s4
    = Inr (GMap (store_all m ((k0, w0) # map (\<lambda>e. (fst e, snd (snd e))) (e # es))),
           s\<lparr>cur := cur s + length (quoted k0 @ '':'' @ t0
             @ concat (map (\<lambda>e. '','' @ quoted (fst e) @ '':'' @ fst (snd e)) (e # es)) @ ''}'')\<rparr>)"
    by (simp add: store_all_Cons)
  show ?case
    by (subst readObjectLoop.simps) (simp only: ws ne ps ws1 ne1 sb1 rv ws3 ne3 sb3 rec if_False
        if_True sum.case prod.case Let_def fst_conv snd_conv not_False_eq_True not_True_eq_False)
qed

lemma ReadValue_empty_array:
  assumes "remaining s = ''[]'' @ rest"
  shows "ReadValue P s = Inr (GSlice [], s\<lparr>cur := cur s + 2\<rparr>)"
proof -
  define s1 where "s1 = s\<lparr>cur := cur s + 1\<rparr>"
  have r: "remaining s = CHR ''['' # CHR '']'' # rest"
    using assms by simp
  have ws: "skipWhitespace s = s"
    by (rule skipWhitespace_noop [OF r]) (simp add: is_ws_def)
  have ne: "\<not> IsEOF s"
    using r by (simp add: IsEOF_remaining)
  have r1: "remaining s1 = CHR '']'' # rest"
    using remaining_Cons(3) [OF r] by (simp add: s1_def)
  have ws1: "skipWhitespace s1 = s1"
    by (rule skipWhitespace_punct [OF r1]) simp
  have sb: "skipByte s1 CHR '']'' = (True, s\<lparr>cur := cur s + 2\<rparr>)"
    using skipByte_Cons [OF r1] by (simp add: s1_def)
  show ?thesis
    by (subst ReadValue.simps)
      (simp only: ws ne peek_remaining [OF r] s1_def [symmetric] ws1 sb Let_def if_False if_True
        char.inject fst_conv snd_conv simp_thms)
qed

lemma ReadValue_array:
  assumes "remaining s = CHR ''['' # c # r" and "\<not> is_ws c" and "c \<noteq> CHR '']''"
  shows "ReadValue P s = readArrayLoop P [] (s\<lparr>cur := cur s + 1\<rparr>)"
proof -
  define s1 where "s1 = s\<lparr>cur := cur s + 1\<rparr>"
  have ws: "skipWhitespace s = s"
    by (rule skipWhitespace_noop [OF assms(1)]) (simp add: is_ws_def)
  have ne: "\<not> IsEOF s"
    using assms(1) by (simp add: IsEOF_remaining)
  have r1: "remaining s1 = c # r"
    using remaining_Cons(3) [OF assms(1)] by (simp add: s1_def)
  have ws1: "skipWhitespace s1 = s1"
    by (rule skipWhitespace_noop [OF r1 assms(2)])
  have sb: "skipByte s1 CHR '']'' = (False, s1)"
    using skipByte_Cons [OF r1] assms(3) by simp
  show ?thesis
    by (subst ReadValue.simps)
      (simp only: ws ne peek_remaining [OF assms(1)] s1_def [symmetric] ws1 sb Let_def if_False
        if_True char.inject fst_conv snd_conv simp_thms)
qed

lemma ReadValue_empty_object:
  assumes "remaining s = ''{}'' @ rest"
  shows "ReadValue P s = Inr (GMap [], s\<lparr>cur := cur s + 2\<rparr>)"
proof -
  define s1 where "s1 = s\<lparr>cur := cur s + 1\<rparr>"
  have r: "remaining s = CHR ''{'' # CHR ''}'' # rest"
    using assms by simp
  have ws: "skipWhitespace s = s"
    by (rule skipWhitespace_noop [OF r]) (simp add: is_ws_def)
  have ne: "\<not> IsEOF s"
    using r by (simp add: IsEOF_remaining)
  have r1: "remaining s1 = CHR ''}'' # rest"
    using remaining_Cons(3) [OF r] by (simp add: s1_def)
  have ws1: "skipWhitespace s1 = s1"
    by (rule skipWhitespace_punct [OF r1]) simp
  have sb: "skipByte s1 CHR ''}'' = (True, s\<lparr>cur := cur s + 2\<rparr>)"
    using skipByte_Cons [OF r1] by (simp add: s1_def)
  show ?thesis
    by (subst ReadValue.simps)
      (simp only: ws ne peek_remaining [OF r] s1_def [symmetric] ws1 sb Let_def if_False if_True
        char.inject fst_conv snd_conv simp_thms)
qed

lemma ReadValue_object:
  assumes "remaining s = CHR ''{'' # dquote # r"
  shows "ReadValue P s = readObjectLoop P [] (s\<lparr>cur := cur s + 1\<rparr>)"
proof -
  define s1 where "s1 = s\<lparr>cur := cur s + 1\<rparr>"
  have ws: "skipWhitespace s = s"
    by (rule skipWhitespace_noop [OF assms(1)]) (simp add: is_ws_def)
  have ne: "\<not> IsEOF s"
    using assms(1) by (simp add: IsEOF_remaining)
  have r1: "remaining s1 = dquote # r"
    using remaining_Cons(3) [OF assms(1)] by (simp add: s1_def)
  have ws1: "skipWhitespace s1 = s1"
    by (rule skipWhitespace_punct [OF r1]) simp
  have sb: "skipByte s1 CHR ''}'' = (False, s1)"
    using skipByte_Cons [OF r1] by (simp add: dquote_def)
  show ?thesis
    by (subst ReadValue.simps)
      (simp only: ws ne peek_remaining [OF assms(1)] s1_def [symmetric] ws1 sb Let_def if_False
        if_True char.inject fst_conv snd_conv simp_thms)
qed

lemma reads_as_first:
  assumes "reads_as P t w"
  shows "hd t \<in> {CHR ''{'', CHR ''['', dquote, CHR ''t'', CHR ''f'', CHR ''n'', CHR ''-''}
    \<or> is_digit (hd t)"
proof (rule ccontr)
  assume n: "\<not> ?thesis"
  define s where "s = \<lparr>data = t, cur = 0, flags = 0\<rparr>"
  obtain c r where t: "t = c # r" and c: "\<not> is_ws c"
    using assms unfolding reads_as_def by (cases t) auto
  have r: "remaining s = c # r"
    by (simp add: s_def remaining_def t)
  have "ReadValue P s = Inr (w, s\<lparr>cur := cur s + length t\<rparr>)"
    by (rule reads_asD [OF assms, of s "[]"]) (simp_all add: r t)
  moreover have "ReadValue P s = Inl ErrUnexpectedToken"
    using n
    by (subst ReadValue.simps)
      (simp add: skipWhitespace_noop [OF r c] IsEOF_remaining r peek_remaining [OF r] t)
  ultimately show False by simp
qed

lemma reads_as_Cons:
  assumes "reads_as P t w"
  obtains c r where "t = c # r" and "\<not> is_ws c" and "c \<noteq> CHR '']''" and "c \<noteq> CHR 0xEF"
proof -
  obtain c r where t: "t = c # r" and c: "\<not> is_ws c"
    using assms unfolding reads_as_def by (cases t) auto
  have "c \<in> {CHR ''{'', CHR ''['', dquote, CHR ''t'', CHR ''f'', CHR ''n'', CHR ''-''}
    \<or> is_digit c"
    using reads_as_first [OF assms] t by simp
  then have "c \<noteq> CHR '']''" "c \<noteq> CHR 0xEF"
    by (auto simp: dquote_def is_digit_def byte_def)
  then show ?thesis
    using that t c by blast
qed

lemma comma_separated_Cons:
  "comma_separated (map T (e # es)) = T e @ concat (map (\<lambda>y. '','' @ T y) es)"
  by (simp add: comp_def)

lemma ReadValue_array_text:
  assumes "list_all (\<lambda>e. reads_as P (T e) (C e)) es"
    and "remaining s = (if es = [] then ''[]'' else ''['' @ comma_separated (map T es) @ '']'') @ rest"
  shows "ReadValue P s
    = Inr (GSlice (map C es),
           s\<lparr>cur := cur s + length (if es = [] then ''[]''
                                     else ''['' @ comma_separated (map T es) @ '']'')\<rparr>)"
proof (cases es)
  case Nil
  then show ?thesis
    using ReadValue_empty_array [of s rest P] assms(2) by simp
next
  case (Cons e es')
  define s1 where "s1 = s\<lparr>cur := cur s + 1\<rparr>"
  define tws where "tws = map (\<lambda>e. (T e, C e)) es'"
  have ra: "reads_as P (T e) (C e)"
    using assms(1) Cons by simp
  obtain c r where t: "T e = c # r" and c: "\<not> is_ws c" "c \<noteq> CHR '']''"
    using ra by (rule reads_as_Cons)
  have tl: "concat (map (\<lambda>tw. '','' @ fst tw) tws) = concat (map (\<lambda>y. '','' @ T y) es')"
    by (simp add: tws_def comp_def)
  have r: "remaining s = CHR ''['' # T e @ concat (map (\<lambda>tw. '','' @ fst tw) tws) @ '']'' @ rest"
    using assms(2) Cons by (simp add: tws_def comp_def)
  have r': "remaining s = CHR ''['' # c # r @ concat (map (\<lambda>tw. '','' @ fst tw) tws) @ '']'' @ rest"
    using r t by simp
  have 1: "ReadValue P s = readArrayLoop P [] s1"
    unfolding s1_def by (rule ReadValue_array [OF r' c])
  have r1: "remaining s1 = T e @ concat (map (\<lambda>tw. '','' @ fst tw) tws) @ '']'' @ rest"
    using remaining_Cons(3) [OF r] by (simp add: s1_def)
  have all: "list_all (\<lambda>tw. reads_as P (fst tw) (snd tw)) ((T e, C e) # tws)"
    using assms(1) Cons by (simp add: tws_def list_all_iff)
  have 2: "readArrayLoop P [] s1
    = Inr (GSlice ([] @ C e # map snd tws),
           s1\<lparr>cur := cur s1 + length (T e @ concat (map (\<lambda>tw. '','' @ fst tw) tws) @ '']'')\<rparr>)"
    by (rule readArrayLoop_elements [OF all r1])
  have 3: "map snd tws = map C es'"
    by (simp add: tws_def comp_def)
  show ?thesis
    unfolding 1 2 using Cons by (simp add: tws_def s1_def comp_def)
qed

lemma ReadValue_object_text:
  assumes "list_all (\<lambda>kv. reads_as P (T (snd kv)) (C (snd kv))) ms"
    and "remaining s = (if ms = [] then ''{}''
           else ''{'' @ comma_separated (map (\<lambda>kv. quoted (fst kv) @ '':'' @ T (snd kv)) ms) @ ''}'')
         @ rest"
  shows "ReadValue P s
    = Inr (GMap (store_all [] (map (\<lambda>kv. (fst kv, C (snd kv))) ms)),
           s\<lparr>cur := cur s + length (if ms = [] then ''{}''
             else ''{'' @ comma_separated (map (\<lambda>kv. quoted (fst kv) @ '':'' @ T (snd kv)) ms)
                  @ ''}'')\<rparr>)"
proof (cases ms)
  case Nil
  then show ?thesis
    using ReadValue_empty_object [of s rest P] assms(2) by (simp add: store_all_Nil)
next
  case (Cons kv ms')
  define s1 where "s1 = s\<lparr>cur := cur s + 1\<rparr>"
  define es where "es = map (\<lambda>kv. (fst kv, T (snd kv), C (snd kv))) ms'"
  define tail where
    "tail = concat (map (\<lambda>e. '','' @ quoted (fst e) @ '':'' @ fst (snd e)) es)"
  have tl: "tail = concat (map (\<lambda>kv. '','' @ quoted (fst kv) @ '':'' @ T (snd kv)) ms')"
    by (simp add: tail_def es_def comp_def)
  have r: "remaining s
    = CHR ''{'' # quoted (fst kv) @ '':'' @ T (snd kv) @ tail @ ''}'' @ rest"
    using assms(2) Cons by (simp add: tl comp_def)
  have r': "remaining s
    = CHR ''{'' # dquote # escape (fst kv) @ [dquote] @ '':'' @ T (snd kv) @ tail @ ''}'' @ rest"
    using r by (simp add: quoted_def)
  have 1: "ReadValue P s = readObjectLoop P [] s1"
    unfolding s1_def by (rule ReadValue_object [OF r'])
  have r1: "remaining s1 = quoted (fst kv) @ '':'' @ T (snd kv) @ tail @ ''}'' @ rest"
    using remaining_Cons(3) [OF r] by (simp add: s1_def)
  have all: "list_all (\<lambda>e. reads_as P (fst (snd e)) (snd (snd e)))
    ((fst kv, T (snd kv), C (snd kv)) # es)"
    using assms(1) Cons by (simp add: es_def list_all_iff)
  have 2: "readObjectLoop P [] s1
    = Inr (GMap (store_all [] ((fst kv, C (snd kv)) # map (\<lambda>e. (fst e, snd (snd e))) es)),
           s1\<lparr>cur := cur s1 + length (quoted (fst kv) @ '':'' @ T (snd kv) @ tail @ ''}'')\<rparr>)"
    unfolding tail_def by (rule readObjectLoop_members [OF all]) (use r1 in \<open>simp add: tail_def\<close>)
  have 3: "map (\<lambda>e. (fst e, snd (snd e))) es = map (\<lambda>kv. (fst kv, C (snd kv))) ms'"
    by (simp add: es_def comp_def)
  show ?thesis
    unfolding 1 2 using Cons by (simp add: 3 tl s1_def comp_def)
qed

subsection \<open>The map the assignments build\<close>

lemma update_fresh: "k \<notin> fst ` set m \<Longrightarrow> AList.update k v m = m @ [(k, v)]"
  by (induction m) auto

lemma store_all_distinct: "distinct (map fst (m @ ms)) \<Longrightarrow> store_all m ms = m @ ms"
proof (induction ms arbitrary: m)
  case Nil
  show ?case by (simp add: store_all_Nil)
next
  case (Cons kv ms)
  have "fst kv \<notin> fst ` set m"
    using Cons.prems by auto
  then have u: "AList.update (fst kv) (snd kv) m = m @ [kv]"
    by (simp add: update_fresh)
  have "distinct (map fst ((m @ [kv]) @ ms))"
    using Cons.prems by simp
  then have "store_all (m @ [kv]) ms = (m @ [kv]) @ ms"
    by (rule Cons.IH)
  then show ?case
    by (simp add: store_all_Cons u)
qed




subsection \<open>Encoding, then decoding\<close>

lemma reads_asI:
  assumes "t \<noteq> []" and "\<not> is_ws (hd t)"
    and "\<And>s rest. remaining s = t @ rest \<Longrightarrow> number_end rest
           \<Longrightarrow> ReadValue P s = Inr (w, s\<lparr>cur := cur s + length t\<rparr>)"
  shows "reads_as P t w"
  using assms unfolding reads_as_def by blast

lemma json_value_plain: "json_value F P p v \<Longrightarrow> plain v"
  by (induction F P p v rule: json_value.induct) (auto simp: list_all_iff)

lemma json_value_reads_as:
  "json_value F P p v \<Longrightarrow> reads_as P (json_text F p v) (canon v)"
proof (induction F P p v rule: json_value.induct)
  case (1 F P p)
  show ?case
  proof (rule reads_asI)
    fix s rest
    assume "remaining s = json_text F p GNil @ rest"
    then show "ReadValue P s = Inr (canon GNil, s\<lparr>cur := cur s + length (json_text F p GNil)\<rparr>)"
      using ReadValue_null [of s rest P] by simp
  qed (simp_all add: is_ws_def)
next
  case (2 F P p b)
  show ?case
  proof (rule reads_asI)
    fix s rest
    assume "remaining s = json_text F p (GBool b) @ rest"
    then show "ReadValue P s
      = Inr (canon (GBool b), s\<lparr>cur := cur s + length (json_text F p (GBool b))\<rparr>)"
      using ReadValue_true [of s rest P] ReadValue_false [of s rest P] by (cases b) simp_all
  qed (simp_all add: is_ws_def)
next
  case (3 F P p x)
  then have num: "json_number (F x p)" and pb: "P (F x p) = (x, None)"
    by simp_all
  obtain c r where t: "F x p = c # r" and c: "c = CHR ''-'' \<or> is_digit c"
    using num by (rule json_number_head)
  have ws: "\<not> is_ws c"
    using c is_digit_not_punct [of c] by (auto simp: is_ws_def)
  show ?case
  proof (rule reads_asI)
    fix s rest
    assume "remaining s = json_text F p (GFloat x) @ rest" and "number_end rest"
    then show "ReadValue P s
      = Inr (canon (GFloat x), s\<lparr>cur := cur s + length (json_text F p (GFloat x))\<rparr>)"
      using ReadValue_number [of "F x p" rest s P x] num pb by simp
  qed (simp_all add: t ws)
next
  case (4 F P p str)
  show ?case
  proof (rule reads_asI)
    fix s rest
    assume "remaining s = json_text F p (GString str) @ rest"
    then show "ReadValue P s
      = Inr (canon (GString str), s\<lparr>cur := cur s + length (json_text F p (GString str))\<rparr>)"
      using ReadValue_string [of s str rest P] by simp
  qed (simp_all add: quoted_def is_ws_def dquote_def)
next
  case (5 F P p es)
  have all: "list_all (\<lambda>e. reads_as P (json_text F p e) (canon e)) es"
    using 5 by (simp add: list_all_iff)
  show ?case
  proof (rule reads_asI)
    fix s rest
    assume "remaining s = json_text F p (GSlice es) @ rest"
    then show "ReadValue P s
      = Inr (canon (GSlice es), s\<lparr>cur := cur s + length (json_text F p (GSlice es))\<rparr>)"
      using ReadValue_array_text [OF all, of s rest] by simp
  qed (simp_all add: is_ws_def)
next
  case (6 F P p kvs)
  define ms where "ms = sort_key fst kvs"
  have d: "distinct (map fst kvs)" and vs: "\<And>kv. kv \<in> set kvs \<Longrightarrow> json_value F P p (snd kv)"
    using 6(2) by (simp_all add: list_all_iff)
  have all: "list_all (\<lambda>kv. reads_as P (json_text F p (snd kv)) (canon (snd kv))) ms"
    using 6(1) vs by (simp add: list_all_iff ms_def)
  have "distinct (map fst ([] @ map (\<lambda>kv. (fst kv, canon (snd kv))) ms))"
    using d by (simp add: comp_def ms_def distinct_map_sort_key)
  then have st: "store_all [] (map (\<lambda>kv. (fst kv, canon (snd kv))) ms)
    = map (\<lambda>kv. (fst kv, canon (snd kv))) ms"
    using store_all_distinct [of "[]" "map (\<lambda>kv. (fst kv, canon (snd kv))) ms"] by simp
  have jt: "json_text F p (GMap kvs)
    = (if ms = [] then ''{}''
       else ''{'' @ comma_separated
                     (map (\<lambda>kv. quoted (fst kv) @ '':'' @ json_text F p (snd kv)) ms) @ ''}'')"
    by (simp add: ms_def sort_key_Nil_iff)
  have cn: "canon (GMap kvs) = GMap (map (\<lambda>kv. (fst kv, canon (snd kv))) ms)"
    by (simp add: ms_def)
  show ?case
    unfolding jt cn
  proof (rule reads_asI)
    fix s rest
    assume "remaining s = (if ms = [] then ''{}''
       else ''{'' @ comma_separated
                     (map (\<lambda>kv. quoted (fst kv) @ '':'' @ json_text F p (snd kv)) ms) @ ''}'')
       @ rest"
    then show "ReadValue P s
      = Inr (GMap (map (\<lambda>kv. (fst kv, canon (snd kv))) ms),
             s\<lparr>cur := cur s + length (if ms = [] then ''{}''
               else ''{'' @ comma_separated
                     (map (\<lambda>kv. quoted (fst kv) @ '':'' @ json_text F p (snd kv)) ms) @ ''}'')\<rparr>)"
      using ReadValue_object_text [OF all, of s rest] by (simp only: st)
  qed (simp_all add: is_ws_def)
qed simp_all

lemma map_of_map_snd:
  "map_of (map (\<lambda>kv. (fst kv, f (snd kv))) xs) k = map_option f (map_of xs k)"
  by (induction xs) auto

lemma map_of_sort_key:
  assumes "distinct (map fst xs)"
  shows "map_of (sort_key fst xs) = map_of xs"
proof -
  have "distinct (map fst (sort_key fst xs))"
    using assms by (simp add: distinct_map_sort_key)
  moreover have "set (sort_key fst xs) = set xs"
    by simp
  ultimately show ?thesis
    using assms by (simp add: map_of_inject_set)
qed

lemma json_equiv_canon: "json_value F P p v \<Longrightarrow> json_equiv v (canon v)"
proof (induction F P p v rule: json_value.induct)
  case (5 F P p es)
  have "list_all2 json_equiv es (map canon es)"
    using 5 by (simp add: list_all2_map2 list_all_iff list_all2_same)
  then show ?case
    by (simp add: equiv_slice)
next
  case (6 F P p kvs)
  have d: "distinct (map fst kvs)" and vs: "\<And>kv. kv \<in> set kvs \<Longrightarrow> json_value F P p (snd kv)"
    using 6(2) by (simp_all add: list_all_iff)
  have "json_equiv (GMap kvs) (GMap (map (\<lambda>kv. (fst kv, canon (snd kv))) (sort_key fst kvs)))"
  proof (rule equiv_map)
    show "fst ` set kvs = fst ` set (map (\<lambda>kv. (fst kv, canon (snd kv))) (sort_key fst kvs))"
      by (simp add: image_image)
  next
    fix k v1 v2
    assume 1: "map_of kvs k = Some v1"
      and 2: "map_of (map (\<lambda>kv. (fst kv, canon (snd kv))) (sort_key fst kvs)) k = Some v2"
    have "v2 = canon v1"
      using 1 2 by (simp add: map_of_map_snd map_of_sort_key [OF d])
    moreover have "(k, v1) \<in> set kvs"
      using 1 by (rule map_of_SomeD)
    ultimately show "json_equiv v1 v2"
      using "6.IH" [of "(k, v1)"] vs [of "(k, v1)"] by simp
  qed
  then show ?case by simp
qed (simp_all add: json_equiv.intros)

lemma NewScanner_text:
  assumes "reads_as P t w"
  shows "NewScanner t [] = Some \<lparr>data = t, cur = 0, flags = 0\<rparr>"
proof -
  define s where "s = \<lparr>data = t, cur = 0, flags = 0\<rparr>"
  obtain c r where t: "t = c # r" and c: "c \<noteq> CHR 0xEF"
    using assms by (rule reads_as_Cons)
  have bom: "SkipBOM s = (False, s)"
    using c by (simp add: SkipBOM_def s_def t)
  have "remaining s = t @ []"
    by (simp add: s_def remaining_def)
  then have ws: "skipWhitespace s = s"
    by (rule reads_as_head(1) [OF assms])
  show ?thesis
    using bom ws by (simp add: NewScanner_def s_def)
qed

subsection \<open>Duplicate keys\<close>


lemma FormatFloat_examples:
  "strconv_FormatFloat 0x3FF0000000000000 6 = ''1''"
  "strconv_FormatFloat 0x4000000000000000 6 = ''2''"
  "strconv_FormatFloat 0x3FF8000000000000 6 = ''1.5''"
  "strconv_FormatFloat 4698053236609777664 6 = ''1.23457e+06''"
  by (simp_all add: format_eval)

lemma ParseFloat_examples:
  "strconv_ParseFloat ''1'' = (0x3FF0000000000000, None)"
  "strconv_ParseFloat ''2'' = (0x4000000000000000, None)"
  "strconv_ParseFloat ''1.5'' = (0x3FF8000000000000, None)"
  "strconv_ParseFloat ''1.23457e+06'' = (4698053249494679552, None)"
  by (simp_all add: strconv_eval)

lemma json_number_examples:
  "json_number ''1''" "json_number ''2''" "json_number ''1.5''"
  using json_numberI [of "[]" "''1''" "[]" "[]"] json_numberI [of "[]" "''2''" "[]" "[]"]
    json_numberI [of "[]" "''1''" "''.5''" "[]"]
  by (simp_all add: sign_part_def int_part_def frac_part_def exp_part_def is_digit_def byte_def)

lemma finite_examples:
  "\<not> IsInf 0x3FF0000000000000" "\<not> IsNaN 0x3FF0000000000000"
  "\<not> IsInf 0x4000000000000000" "\<not> IsNaN 0x4000000000000000"
  "\<not> IsInf 0x3FF8000000000000" "\<not> IsNaN 0x3FF8000000000000"
  by (simp_all add: IsInf_def IsNaN_def exp_field_def frac_field_def)



text \<open>
  C1, for the numbers that survive the default precision. Take a value \<open>v\<close> built from
  \<open>null\<close>, booleans, strings, slices, maps with string keys, and floats that are finite
  and that \<open>ParseFloat\<close> gives back from the text \<open>FormatFloat\<close> writes for them with 6
  significant digits. \<open>Marshal\<close> with no options returns the text of \<open>v\<close> and no
  error; \<open>NewScanner\<close> on this text stands at its first byte; \<open>ReadValue\<close> returns a
  value and stops at the end of the text; and the value returned is structurally
  equivalent to \<open>v\<close>: the same scalars, floats with the same bits, slices element by
  element, maps with the same keys and equivalent values, in whatever order.
\<close>

theorem Marshal_ReadValue_round_trip:
  assumes "json_value F P 6 v"
  shows "Marshal F v [] = (json_text F 6 v, None)
    \<and> NewScanner (json_text F 6 v) [] = Some \<lparr>data = json_text F 6 v, cur = 0, flags = 0\<rparr>
    \<and> ReadValue P \<lparr>data = json_text F 6 v, cur = 0, flags = 0\<rparr>
        = Inr (canon v, \<lparr>data = json_text F 6 v, cur = length (json_text F 6 v), flags = 0\<rparr>)
    \<and> json_equiv v (canon v)"
proof (intro conjI)
  have ra: "reads_as P (json_text F 6 v) (canon v)"
    using assms by (rule json_value_reads_as)
  show "Marshal F v [] = (json_text F 6 v, None)"
    using Marshal_plain [OF json_value_plain [OF assms], of "[]" F]
    by (simp add: parseMarshalOptions_def)
  show "NewScanner (json_text F 6 v) [] = Some \<lparr>data = json_text F 6 v, cur = 0, flags = 0\<rparr>"
    using ra by (rule NewScanner_text)
  show "ReadValue P \<lparr>data = json_text F 6 v, cur = 0, flags = 0\<rparr>
        = Inr (canon v, \<lparr>data = json_text F 6 v, cur = length (json_text F 6 v), flags = 0\<rparr>)"
    using reads_asD [OF ra, of "\<lparr>data = json_text F 6 v, cur = 0, flags = 0\<rparr>" "[]"]
    by (simp add: remaining_def)
  show "json_equiv v (canon v)"
    using assms by (rule json_equiv_canon)
qed

theorem Marshal_ReadValue_round_trip_witness:
  "json_value strconv_FormatFloat strconv_ParseFloat 6
     (GMap [(''b'', GSlice [GNil, GBool True, GFloat 0x3FF8000000000000, GString ''x'']),
            (''a'', GMap [])])
   \<and> Marshal strconv_FormatFloat
        (GMap [(''b'', GSlice [GNil, GBool True, GFloat 0x3FF8000000000000, GString ''x'']),
               (''a'', GMap [])]) []
      = (''{'' @ [dquote] @ ''a'' @ [dquote] @ '':{},'' @ [dquote] @ ''b'' @ [dquote]
           @ '':[null,true,1.5,'' @ [dquote] @ ''x'' @ [dquote] @ '']}'', None)
   \<and> ReadValue strconv_ParseFloat
        \<lparr>data = ''{'' @ [dquote] @ ''a'' @ [dquote] @ '':{},'' @ [dquote] @ ''b'' @ [dquote]
           @ '':[null,true,1.5,'' @ [dquote] @ ''x'' @ [dquote] @ '']}'', cur = 0, flags = 0\<rparr>
      = Inr (GMap [(''a'', GMap []),
                   (''b'', GSlice [GNil, GBool True, GFloat 0x3FF8000000000000, GString ''x''])],
             \<lparr>data = ''{'' @ [dquote] @ ''a'' @ [dquote] @ '':{},'' @ [dquote] @ ''b'' @ [dquote]
                @ '':[null,true,1.5,'' @ [dquote] @ ''x'' @ [dquote] @ '']}'', cur = 32, flags = 0\<rparr>)
   \<and> json_equiv
        (GMap [(''b'', GSlice [GNil, GBool True, GFloat 0x3FF8000000000000, GString ''x'']),
               (''a'', GMap [])])
        (GMap [(''a'', GMap []),
               (''b'', GSlice [GNil, GBool True, GFloat 0x3FF8000000000000, GString ''x''])])"
proof -
  define v where
    "v = GMap [(''b'', GSlice [GNil, GBool True, GFloat 0x3FF8000000000000, GString ''x'']),
               (''a'', GMap [])]"
  define t where
    "t = ''{'' @ [dquote] @ ''a'' @ [dquote] @ '':{},'' @ [dquote] @ ''b'' @ [dquote]
           @ '':[null,true,1.5,'' @ [dquote] @ ''x'' @ [dquote] @ '']}''"
  have jv: "json_value strconv_FormatFloat strconv_ParseFloat 6 v"
    by (simp add: v_def FormatFloat_examples ParseFloat_examples json_number_examples
        finite_examples)
  have so: "sort_key fst [(''b'', GSlice [GNil, GBool True, GFloat 0x3FF8000000000000, GString ''x'']),
               (''a'', GMap [])]
    = [(''a'', GMap []), (''b'', GSlice [GNil, GBool True, GFloat 0x3FF8000000000000, GString ''x''])]"
    by (simp add: less_eq_char_def)
  have jt: "json_text strconv_FormatFloat 6 v = t"
    by (simp add: v_def t_def so FormatFloat_examples quoted_def escape_def escape_byte_def
        bslash_def dquote_def byte_def)
  have cn: "canon v = GMap [(''a'', GMap []),
                   (''b'', GSlice [GNil, GBool True, GFloat 0x3FF8000000000000, GString ''x''])]"
    by (simp add: v_def so)
  have len: "length t = 32"
    by (simp add: t_def)
  show ?thesis
    using Marshal_ReadValue_round_trip [OF jv] jv
    unfolding jt cn len
    by (simp add: v_def t_def)
qed

text \<open>
  C1 as stated fails on floats. With the default precision of 6 significant digits the
  float 1234567 is written as \<open>1.23457e+06\<close>, which decodes to the float 1234570, a
  different 64-bit float; and a NaN makes \<open>Marshal\<close> return an error and no text.
\<close>

theorem round_trip_loses_float_digits:
  "Marshal strconv_FormatFloat (GFloat 4698053236609777664) [] = (''1.23457e+06'', None)
   \<and> ReadValue strconv_ParseFloat \<lparr>data = ''1.23457e+06'', cur = 0, flags = 0\<rparr>
      = Inr (GFloat 4698053249494679552, \<lparr>data = ''1.23457e+06'', cur = 11, flags = 0\<rparr>)
   \<and> \<not> json_equiv (GFloat 4698053236609777664) (GFloat 4698053249494679552)
   \<and> Marshal strconv_FormatFloat (GFloat 0x7FF8000000000000) []
      = ([], Some (UnsupportedFloatValue 0x7FF8000000000000))"
proof (intro conjI)
  have fin: "\<not> IsInf 4698053236609777664" "\<not> IsNaN 4698053236609777664"
    by (simp_all add: IsInf_def IsNaN_def exp_field_def frac_field_def)
  then have "plain (GFloat 4698053236609777664)"
    by simp
  then show "Marshal strconv_FormatFloat (GFloat 4698053236609777664) [] = (''1.23457e+06'', None)"
    using Marshal_plain [of "GFloat 4698053236609777664" "[]" strconv_FormatFloat]
    by (simp add: parseMarshalOptions_def FormatFloat_examples)
  have num: "json_number ''1.23457e+06''"
    using json_numberI [of "[]" "''1''" "''.23457''" "''e+06''"]
    by (simp add: sign_part_def int_part_def frac_part_def exp_part_def exp_digits_def
        is_digit_def byte_def)
  show "ReadValue strconv_ParseFloat \<lparr>data = ''1.23457e+06'', cur = 0, flags = 0\<rparr>
      = Inr (GFloat 4698053249494679552, \<lparr>data = ''1.23457e+06'', cur = 11, flags = 0\<rparr>)"
    using ReadValue_number [OF num, of "[]" "\<lparr>data = ''1.23457e+06'', cur = 0, flags = 0\<rparr>"
        strconv_ParseFloat 4698053249494679552]
    by (simp add: remaining_def ParseFloat_examples)
  show "\<not> json_equiv (GFloat 4698053236609777664) (GFloat 4698053249494679552)"
    by (auto elim: json_equiv.cases)
  have nan: "IsNaN 0x7FF8000000000000"
    by (simp add: IsNaN_def exp_field_def frac_field_def)
  show "Marshal strconv_FormatFloat (GFloat 0x7FF8000000000000) []
      = ([], Some (UnsupportedFloatValue 0x7FF8000000000000))"
    by (simp add: marshal_eval marshalFloat64_def nan)
qed

end
